theory Spec2Isabelle
  imports
    Complex_Main
    "HOL-Library.AList"
    "HOL-Library.Char_ord"
    "HOL-Library.List_Lexorder"
    "HOL-Library.Product_Lexorder"
    "HOL-Library.Log_Nat"
begin

section \<open>Data model\<close>

text \<open>
  A sequence is a Python \<^verbatim>\<open>list[str]\<close>, here a \<open>string list\<close>. A derivation is a Python
  dictionary \<^verbatim>\<open>(string_index, char_index) -> (character, substring)\<close>. Python dictionaries
  keep insertion order, and assigning to a key that is present replaces the value in place; that
  is \<open>AList.update\<close> on an association list. The one-character string \<^verbatim>\<open>s[char_index]\<close> is a
  \<open>char\<close>. Python integers are unbounded: \<open>int\<close>. Indices that the source only ever
  counts up from zero (\<^verbatim>\<open>string_index\<close>, \<^verbatim>\<open>char_index\<close>) are \<open>nat\<close>; the cursor
  \<^verbatim>\<open>last_used_in_t\<close> starts at \<open>-1\<close> and is an \<open>int\<close>. Python floats are IEEE 754 doubles, with
  their rounding, their overflow and their special values (see below). A character of a Python
  string is a code point and a \<open>char\<close> is a byte, which covers sequences over ASCII; the code only
  compares characters for equality and, in \<^verbatim>\<open>sorted\<close>, for order.
\<close>

type_synonym position = "nat \<times> nat"
type_synonym production = "char \<times> string"
type_synonym derivation = "(position \<times> production) list"

text \<open>
  The exceptions the modelled code can raise. \<open>ValueError_max_empty\<close> is the \<^verbatim>\<open>ValueError\<close> of the
  builtin \<^verbatim>\<open>max\<close> on an empty list, \<open>ValueError_not_in_list\<close> the one of \<^verbatim>\<open>list.index\<close>, and
  \<open>ValueError_init_guess n m\<close> the \<^verbatim>\<open>ValueError\<close> that \<^verbatim>\<open>solve_s0l\<close> raises itself, whose message
  carries the two lengths. \<open>OverflowError\<close> is raised by the conversion of an integer to a float
  and by the true division of two integers when the result is beyond the largest double.
  \<open>OptimizerError msg\<close> stands for any exception that leaves a call of \<^verbatim>\<open>scipy.optimize.minimize\<close>.
\<close>

datatype error =
    IndexError
  | KeyError
  | ZeroDivisionError
  | OverflowError
  | ValueError_max_empty
  | ValueError_not_in_list
  | ValueError_init_guess nat nat
  | OptimizerError string

subsection \<open>Python slices, dictionaries, \<^verbatim>\<open>max\<close> and \<^verbatim>\<open>index\<close>\<close>

text \<open>A slice bound is clamped into \<open>0..len\<close>; a negative bound counts from the end.\<close>

definition slice_bound :: "int \<Rightarrow> nat \<Rightarrow> nat" where
  "slice_bound i n = (if i < 0 then nat (max 0 (i + int n)) else min (nat i) n)"

text \<open>\<^verbatim>\<open>t[a:b]\<close> and \<^verbatim>\<open>t[a:]\<close>.\<close>

definition slice :: "'a list \<Rightarrow> int \<Rightarrow> int \<Rightarrow> 'a list" where
  "slice t a b = take (slice_bound b (length t) - slice_bound a (length t))
                      (drop (slice_bound a (length t)) t)"

definition slice_from :: "'a list \<Rightarrow> int \<Rightarrow> 'a list" where
  "slice_from t a = drop (slice_bound a (length t)) t"

text \<open>\<^verbatim>\<open>d.get(k, default)\<close> and \<^verbatim>\<open>d[k]\<close>.\<close>

definition dict_get :: "('k \<times> 'v) list \<Rightarrow> 'k \<Rightarrow> 'v \<Rightarrow> 'v" where
  "dict_get d k dflt = (case map_of d k of None \<Rightarrow> dflt | Some v \<Rightarrow> v)"

definition dict_item :: "('k \<times> 'v) list \<Rightarrow> 'k \<Rightarrow> error + 'v" where
  "dict_item d k = (case map_of d k of None \<Rightarrow> Inl KeyError | Some v \<Rightarrow> Inr v)"

text \<open>\<^verbatim>\<open>max(xs)\<close> on a list of integers, and \<^verbatim>\<open>xs.index(v)\<close>, the first index holding \<open>v\<close>.\<close>

definition py_max :: "int list \<Rightarrow> error + int" where
  "py_max xs = (case xs of [] \<Rightarrow> Inl ValueError_max_empty | x # ys \<Rightarrow> Inr (fold max ys x))"

fun py_index :: "int list \<Rightarrow> int \<Rightarrow> error + nat" where
  "py_index [] v = Inl ValueError_not_in_list"
| "py_index (x # xs) v =
     (if x = v then Inr 0
      else case py_index xs v of Inl e \<Rightarrow> Inl e | Inr i \<Rightarrow> Inr (Suc i))"

subsection \<open>Floats\<close>

text \<open>
  A Python float, and an entry of a numpy array of \<^verbatim>\<open>dtype=float\<close>, is an IEEE 754 double:
  a sign, a significand of 53 bits and a binary exponent, the least positive double being
  \<open>2 ^ -1074\<close> and every double being below \<open>2 ^ 1024\<close>. A double is modelled by what it denotes:
  a finite double by its rational value (\<open>Finite 0\<close> is \<^verbatim>\<open>0.0\<close>), beside the negative zero, the
  two infinities and the NaN. The numerals \<open>0\<close> and \<open>1\<close> at this type are \<^verbatim>\<open>0.0\<close> and \<^verbatim>\<open>1.0\<close>.
\<close>

datatype double = Finite rat | NegZero | PosInf | NegInf | NaN

instantiation double :: "{zero, one}"
begin

definition zero_double :: double where
  "zero_double = Finite 0"

definition one_double :: double where
  "one_double = Finite 1"

instance ..

end

text \<open>
  Rounding to the nearest double, ties to the even significand. For a positive rational \<open>x\<close>,
  \<open>ilog2 x\<close> is the integer \<open>l\<close> with \<open>2 ^ l \<le> x < 2 ^ (l + 1)\<close>, found from the bit lengths of the
  numerator and the denominator; the doubles around \<open>x\<close> are the multiples of \<open>2 ^ e\<close> with
  \<open>e = max (l - 52) (-1074)\<close> (the second bound is the spacing of the subnormal doubles).
  \<open>nearest_multiple x\<close> is the multiple nearest to \<open>x\<close>, ties to the even one, and
  \<open>round_magnitude x\<close> is \<open>None\<close> when that is \<open>2 ^ 1024\<close> or more (\<open>1024 \<le> ilog2 r\<close>): the overflow.
\<close>

definition ilog2 :: "rat \<Rightarrow> int" where
  "ilog2 x =
     (let (a, b) = quotient_of x; d = bitlen a - bitlen b
      in if 2 powi d \<le> x then d else d - 1)"

definition round_even :: "rat \<Rightarrow> int" where
  "round_even y =
     (let q = \<lfloor>y\<rfloor>; f = y - of_int q
      in if f < 1 / 2 then q else if 1 / 2 < f then q + 1 else if even q then q else q + 1)"

definition nearest_multiple :: "rat \<Rightarrow> rat" where
  "nearest_multiple x =
     (let e = max (ilog2 x - 52) (- 1074)
      in of_int (round_even (x / 2 powi e)) * 2 powi e)"

definition round_magnitude :: "rat \<Rightarrow> rat option" where
  "round_magnitude x =
     (let r = nearest_multiple x in if 1024 \<le> ilog2 r then None else Some r)"

text \<open>
  The double an IEEE operation returns for the exact result \<open>x\<close>. An overflow gives the infinity
  of the sign of \<open>x\<close>, an underflow to nothing the zero of that sign; when \<open>x\<close> itself is zero the
  operation supplies the sign of the zero (\<open>neg\<close>).
\<close>

definition signed_zero :: "bool \<Rightarrow> double" where
  "signed_zero neg = (if neg then NegZero else Finite 0)"

definition signed_inf :: "bool \<Rightarrow> double" where
  "signed_inf neg = (if neg then NegInf else PosInf)"

definition round_ieee :: "bool \<Rightarrow> rat \<Rightarrow> double" where
  "round_ieee neg x =
     (if x = 0 then signed_zero neg
      else case round_magnitude \<bar>x\<bar> of
             None \<Rightarrow> signed_inf (x < 0)
           | Some r \<Rightarrow> if r = 0 then signed_zero (x < 0)
                       else Finite (if x < 0 then - r else r))"

definition is_nan :: "double \<Rightarrow> bool" where
  "is_nan x = (x = NaN)"

definition is_inf :: "double \<Rightarrow> bool" where
  "is_inf x = (x = PosInf \<or> x = NegInf)"

definition is_zero :: "double \<Rightarrow> bool" where
  "is_zero x = (x = Finite 0 \<or> x = NegZero)"

definition sign_bit :: "double \<Rightarrow> bool" where
  "sign_bit x = (case x of Finite r \<Rightarrow> r < 0 | NegZero \<Rightarrow> True | NegInf \<Rightarrow> True
                 | PosInf \<Rightarrow> False | NaN \<Rightarrow> False)"

text \<open>The value of a finite double; the zeros have the value 0.\<close>

definition value_of :: "double \<Rightarrow> rat" where
  "value_of x = (case x of Finite r \<Rightarrow> r | _ \<Rightarrow> 0)"

text \<open>
  The arithmetic of doubles: \<^verbatim>\<open>x * y\<close>, \<^verbatim>\<open>x / y\<close> as numpy divides (a zero divisor gives an
  infinity or the NaN, no exception), \<^verbatim>\<open>x + y\<close>, \<^verbatim>\<open>-x\<close>, \<^verbatim>\<open>x - y\<close> and the comparison \<^verbatim>\<open>x < y\<close>,
  which is false as soon as one side is the NaN; \<^verbatim>\<open>x > y\<close> is \<open>double_less y x\<close>.
\<close>

definition double_mul :: "double \<Rightarrow> double \<Rightarrow> double" where
  "double_mul x y =
     (if is_nan x \<or> is_nan y then NaN
      else if is_inf x \<or> is_inf y then
        (if is_zero x \<or> is_zero y then NaN else signed_inf (sign_bit x \<noteq> sign_bit y))
      else round_ieee (sign_bit x \<noteq> sign_bit y) (value_of x * value_of y))"

definition double_div :: "double \<Rightarrow> double \<Rightarrow> double" where
  "double_div x y =
     (if is_nan x \<or> is_nan y then NaN
      else if is_inf x then
        (if is_inf y then NaN else signed_inf (sign_bit x \<noteq> sign_bit y))
      else if is_inf y then signed_zero (sign_bit x \<noteq> sign_bit y)
      else if is_zero y then
        (if is_zero x then NaN else signed_inf (sign_bit x \<noteq> sign_bit y))
      else round_ieee (sign_bit x \<noteq> sign_bit y) (value_of x / value_of y))"

definition double_add :: "double \<Rightarrow> double \<Rightarrow> double" where
  "double_add x y =
     (if is_nan x \<or> is_nan y then NaN
      else if is_inf x then (if is_inf y \<and> x \<noteq> y then NaN else x)
      else if is_inf y then y
      else round_ieee (sign_bit x \<and> sign_bit y) (value_of x + value_of y))"

definition double_neg :: "double \<Rightarrow> double" where
  "double_neg x =
     (case x of Finite r \<Rightarrow> if r = 0 then NegZero else Finite (- r) | NegZero \<Rightarrow> Finite 0
      | PosInf \<Rightarrow> NegInf | NegInf \<Rightarrow> PosInf | NaN \<Rightarrow> NaN)"

definition double_sub :: "double \<Rightarrow> double \<Rightarrow> double" where
  "double_sub x y = double_add x (double_neg y)"

definition double_less :: "double \<Rightarrow> double \<Rightarrow> bool" where
  "double_less x y =
     (if is_nan x \<or> is_nan y then False
      else if x = PosInf \<or> y = NegInf then False
      else if x = NegInf \<or> y = PosInf then True
      else value_of x < value_of y)"

text \<open>
  \<^verbatim>\<open>float(a)\<close> for a Python integer, the conversion Python makes when an integer meets a float
  in \<^verbatim>\<open>a * x\<close> or \<^verbatim>\<open>x / a\<close>: the nearest double (ties to even), \<^verbatim>\<open>OverflowError\<close> when \<open>a\<close> is too
  large.
\<close>

definition int_to_double :: "int \<Rightarrow> error + double" where
  "int_to_double a =
     (if a = 0 then Inr 0
      else case round_magnitude \<bar>of_int a\<bar> of
             None \<Rightarrow> Inl OverflowError
           | Some r \<Rightarrow> Inr (Finite (if a < 0 then - r else r)))"

text \<open>
  \<^verbatim>\<open>a / b\<close> on two Python integers (true division): \<^verbatim>\<open>ZeroDivisionError\<close> on a zero divisor,
  otherwise the double nearest to the exact quotient, computed from the integers without an
  intermediate rounding; \<^verbatim>\<open>OverflowError\<close> when the quotient is beyond the largest double, and a
  zero of the sign of the quotient when it is too small for a double.
\<close>

definition true_div :: "int \<Rightarrow> int \<Rightarrow> error + double" where
  "true_div a b =
     (if b = 0 then Inl ZeroDivisionError
      else if a = 0 then Inr (signed_zero (b < 0))
      else case round_magnitude \<bar>of_int a / of_int b\<bar> of
             None \<Rightarrow> Inl OverflowError
           | Some r \<Rightarrow>
               Inr (if r = 0 then signed_zero ((a < 0) \<noteq> (b < 0))
                    else Finite (if (a < 0) \<noteq> (b < 0) then - r else r)))"

text \<open>
  \<^verbatim>\<open>x / k\<close> for a Python float and a Python integer: the integer is converted, and Python
  raises \<^verbatim>\<open>ZeroDivisionError\<close> on a zero divisor.
\<close>

definition float_div_int :: "double \<Rightarrow> int \<Rightarrow> error + double" where
  "float_div_int x k =
     (case int_to_double k of
        Inl e \<Rightarrow> Inl e
      | Inr d \<Rightarrow> if is_zero d then Inl ZeroDivisionError else Inr (double_div x d))"

text \<open>
  \<^verbatim>\<open>a.sum()\<close> on a one-dimensional numpy array: \<^verbatim>\<open>0.0\<close> for the empty array, otherwise the
  entries added from left to right, each addition rounded. numpy adds arrays of eight entries
  and more in blocks, in another order; that is not modelled. Taking the first entry as the
  start is the addition of that entry to the initial zero, which is exact.
\<close>

definition np_sum :: "double list \<Rightarrow> double" where
  "np_sum a = (case a of [] \<Rightarrow> 0 | x # xs \<Rightarrow> fold (\<lambda>v acc. double_add acc v) xs x)"

section \<open>The derivation enumerator (derivations.py)\<close>

text \<open>
  \<^verbatim>\<open>_dfs_all_derivations\<close> mutates two shared objects, the dictionary \<^verbatim>\<open>current_mapping\<close> and the
  list \<^verbatim>\<open>all_mappings\<close>; the model passes the pair of them as a state and returns it updated.
  Nothing is undone on the way back from a recursive call, as in the source: a later branch
  works on the dictionary the earlier branches left behind. \<open>dfs_for\<close> is the \<^verbatim>\<open>for right_index\<close>
  loop of the source, run on the list of the indices still to visit.

  \<^verbatim>\<open>seq[string_index]\<close> raises \<^verbatim>\<open>IndexError\<close> when \<open>string_index\<close> is out of range; where the
  source reads \<^verbatim>\<open>seq[string_index + 1]\<close> the two tests before it have made that index valid.
  \<^verbatim>\<open>s[char_index]\<close> in the loop raises when \<open>char_index\<close> is past the end of \<open>s\<close>.
\<close>

function dfs_all_derivations ::
    "string list \<Rightarrow> nat \<Rightarrow> nat \<Rightarrow> int \<Rightarrow> derivation \<times> derivation list
      \<Rightarrow> error + derivation \<times> derivation list"
  and dfs_for ::
    "string list \<Rightarrow> nat \<Rightarrow> nat \<Rightarrow> int \<Rightarrow> int list \<Rightarrow> derivation \<times> derivation list
      \<Rightarrow> error + derivation \<times> derivation list"
where
  "dfs_all_derivations seq string_index char_index last_used_in_t (current_mapping, all_mappings) =
     (if int string_index = int (length seq) - 1 then
        Inr (current_mapping, all_mappings @ [current_mapping])
      else if length seq \<le> string_index then Inl IndexError
      else if char_index = length (seq ! string_index) then
        dfs_all_derivations seq (string_index + 1) 0 (- 1) (current_mapping, all_mappings)
      else
        let s = seq ! string_index; t = seq ! (string_index + 1) in
        if int char_index = int (length s) - 1 then
          dfs_all_derivations seq string_index (char_index + 1) (int (length s) - 1)
            (AList.update (string_index, char_index)
               (s ! char_index, slice_from t (last_used_in_t + 1)) current_mapping,
             all_mappings)
        else
          dfs_for seq string_index char_index last_used_in_t
            [last_used_in_t + 1 .. int (length t) - 1 - 1] (current_mapping, all_mappings))"
| "dfs_for seq string_index char_index last_used_in_t [] st = Inr st"
| "dfs_for seq string_index char_index last_used_in_t (right_index # rest)
       (current_mapping, all_mappings) =
     (let s = seq ! string_index; t = seq ! (string_index + 1) in
      if length s \<le> char_index then Inl IndexError
      else
        case dfs_all_derivations seq string_index (char_index + 1) right_index
               (AList.update (string_index, char_index)
                  (s ! char_index, slice t (last_used_in_t + 1) (right_index + 1)) current_mapping,
                all_mappings) of
          Inl e \<Rightarrow> Inl e
        | Inr st' \<Rightarrow> dfs_for seq string_index char_index last_used_in_t rest st')"
  by pat_completeness auto
termination
  by (relation "measures
        [\<lambda>x. case x of
            Inl (seq, si, ci, l, st) \<Rightarrow> length seq - si
          | Inr (seq, si, ci, l, rs, st) \<Rightarrow> length seq - si,
         \<lambda>x. case x of
            Inl (seq, si, ci, l, st) \<Rightarrow> 2 * (length (seq ! si) - ci) + 1
          | Inr (seq, si, ci, l, rs, st) \<Rightarrow> 2 * (length (seq ! si) - ci),
         \<lambda>x. case x of
            Inl (seq, si, ci, l, st) \<Rightarrow> 0
          | Inr (seq, si, ci, l, rs, st) \<Rightarrow> length rs]")
     auto

definition get_derivations :: "string list \<Rightarrow> error + derivation list" where
  "get_derivations seq =
     (case dfs_all_derivations seq 0 0 (- 1) ([], []) of
        Inl e \<Rightarrow> Inl e
      | Inr (current_mapping, derivation_list) \<Rightarrow> Inr derivation_list)"


section \<open>Production and character statistics (utils.py)\<close>

text \<open>\<^verbatim>\<open>d[k] = d.get(k, 0) + 1\<close>, the counting step of both tallies.\<close>

definition count_up :: "'k \<Rightarrow> ('k \<times> int) list \<Rightarrow> ('k \<times> int) list" where
  "count_up k d = AList.update k (dict_get d k 0 + 1) d"

text \<open>
  \<^verbatim>\<open>a ** a\<close> on a Python integer that is a count, hence not negative (a negative exponent
  would give a float; no count is negative).
\<close>

definition self_power :: "int \<Rightarrow> int" where
  "self_power a = a ^ nat a"

text \<open>
  \<^verbatim>\<open>constant_factor\<close>: the tally of every character of \<^verbatim>\<open>seq[:-1]\<close>, the product of
  \<open>count ** count\<close> over the tally (the loop over the dictionary reads each key's own value), an
  exact integer, and \<^verbatim>\<open>1 / const_factor\<close> by true division: the double nearest to the
  reciprocal, \<^verbatim>\<open>0.0\<close> once the product is large enough.
\<close>

definition constant_factor :: "string list \<Rightarrow> error + double \<times> (char \<times> int) list" where
  "constant_factor seq =
     (let seq_char_count = fold (\<lambda>s d. fold count_up s d) (butlast seq) [];
          const_factor = fold (\<lambda>(c, count_c) f. f * self_power count_c) seq_char_count 1
      in case true_div 1 const_factor of
           Inl e \<Rightarrow> Inl e
         | Inr r \<Rightarrow> Inr (r, seq_char_count))"

text \<open>\<^verbatim>\<open>get_prod_count\<close>: the loop over the keys of the derivation reads each key's production.\<close>

definition get_prod_count :: "derivation \<Rightarrow> (production \<times> int) list" where
  "get_prod_count derivation = fold (\<lambda>(key, production) pc. count_up production pc) derivation []"

definition non_constant_factor :: "derivation \<Rightarrow> int" where
  "non_constant_factor derivation =
     fold (\<lambda>(production, a) factor. factor * self_power a) (get_prod_count derivation) 1"

definition optimal_scaled_probability_val :: "string list \<Rightarrow> derivation \<Rightarrow> int" where
  "optimal_scaled_probability_val seq derivation = non_constant_factor derivation"

section \<open>The single-derivation selector (solver\_q1.py)\<close>

text \<open>
  The loop that fills \<^verbatim>\<open>best_derv_distribution\<close>: \<^verbatim>\<open>seq_char_count[char]\<close> raises \<^verbatim>\<open>KeyError\<close> on
  a missing character, and \<^verbatim>\<open>freq / char_count\<close> is the true division of two integers.
\<close>

fun distribution_loop ::
    "(char \<times> int) list \<Rightarrow> (production \<times> int) list \<Rightarrow> (production \<times> double) list
      \<Rightarrow> error + (production \<times> double) list" where
  "distribution_loop seq_char_count [] distribution = Inr distribution"
| "distribution_loop seq_char_count ((production, freq) # rest) distribution =
     (case dict_item seq_char_count (fst production) of
        Inl e \<Rightarrow> Inl e
      | Inr char_count \<Rightarrow>
          (case true_div freq char_count of
             Inl e \<Rightarrow> Inl e
           | Inr p \<Rightarrow>
               distribution_loop seq_char_count rest (AList.update production p distribution)))"

text \<open>
  \<^verbatim>\<open>overall_dervs_maxprob\<close>, statement by statement. \<^verbatim>\<open>derivation_list[max_index]\<close> is in
  range, \<open>max_index\<close> being an index of \<open>scaled_probs\<close>, which is as long as \<open>derivation_list\<close>.
  \<^verbatim>\<open>max_prob * const_factor\<close> multiplies a Python integer by a float: the integer is converted
  (\<^verbatim>\<open>OverflowError\<close> when it is too large) and the product of the two doubles is rounded.
\<close>

definition overall_dervs_maxprob ::
    "string list \<Rightarrow> error + (production \<times> double) list \<times> derivation \<times> double" where
  "overall_dervs_maxprob seq =
     (case get_derivations seq of
        Inl e \<Rightarrow> Inl e
      | Inr derivation_list \<Rightarrow>
          let scaled_probs = map (optimal_scaled_probability_val seq) derivation_list in
          (case py_max scaled_probs of
             Inl e \<Rightarrow> Inl e
           | Inr max_prob \<Rightarrow>
               (case py_index scaled_probs max_prob of
                  Inl e \<Rightarrow> Inl e
                | Inr max_index \<Rightarrow>
                    let best_derivation = derivation_list ! max_index;
                        production_count = get_prod_count best_derivation in
                    (case constant_factor seq of
                       Inl e \<Rightarrow> Inl e
                     | Inr (const_factor, seq_char_count) \<Rightarrow>
                         (case distribution_loop seq_char_count production_count [] of
                            Inl e \<Rightarrow> Inl e
                          | Inr best_derv_distribution \<Rightarrow>
                              (case int_to_double max_prob of
                                 Inl e \<Rightarrow> Inl e
                               | Inr max_prob_float \<Rightarrow>
                                   Inr (best_derv_distribution, best_derivation,
                                        double_mul max_prob_float const_factor)))))))"

section \<open>The joint optimiser (solver\_q2.py)\<close>

text \<open>
  \<^verbatim>\<open>scipy.optimize.minimize\<close>, \<^verbatim>\<open>numpy.random.random\<close> and the power \<^verbatim>\<open>x ** n\<close> of a numpy float
  (the \<^verbatim>\<open>pow\<close> of the C library) are not code of this repository: the model takes them as
  parameters. The optimiser is a function of the objective, the start vector, the bounds and
  the equality constraints; it returns the three fields of its result that the code reads, or
  raises. The random source is a function of an explicit generator state that yields one
  integer of 53 bits at a time; numpy's draw is that integer divided by \<open>2 ^ 53\<close>, a double in
  \<open>[0, 1)\<close>. Arrays of floats are lists of doubles.
\<close>

record opt_result =
  res_success :: bool
  res_fun :: double
  res_x :: "double list"

type_synonym minimizer =
  "(double list \<Rightarrow> error + double) \<Rightarrow> double list \<Rightarrow> (int \<times> int) list
    \<Rightarrow> (double list \<Rightarrow> error + double) list \<Rightarrow> error + opt_result"

text \<open>\<^verbatim>\<open>Counter(derivation_dict.values())\<close>: the productions with their counts, in order of first use.\<close>

definition counter :: "derivation \<Rightarrow> (production \<times> int) list" where
  "counter derivation_dict = fold count_up (map snd derivation_dict) []"

text \<open>
  \<^verbatim>\<open>sorted(all_pairs)\<close> and \<^verbatim>\<open>sorted({p[0] for p in pairs_list})\<close>: Python orders tuples and strings
  lexicographically, as the orders on pairs and lists do here.
\<close>

definition pairs_list_of :: "derivation list \<Rightarrow> production list" where
  "pairs_list_of dict_list = sort (remdups (concat (map (\<lambda>fm. map fst fm) (map counter dict_list))))"

definition unique_chars_of :: "production list \<Rightarrow> char list" where
  "unique_chars_of pairs_list = sort (remdups (map fst pairs_list))"

definition indices_for_char :: "production list \<Rightarrow> char \<Rightarrow> nat list" where
  "indices_for_char pairs_list char =
     filter (\<lambda>i. fst (pairs_list ! i) = char) [0..<length pairs_list]"

text \<open>The threshold \<^verbatim>\<open>1e-12\<close>: the double nearest to \<open>1 / 10 ^ 12\<close>.\<close>

definition tiny :: double where
  "tiny = round_ieee False (1 / 10 ^ 12)"

text \<open>
  \<^verbatim>\<open>for idx in indices_for_char: guess_arr[idx] = 1.0 / k\<close>. The quotient is evaluated at each
  turn of the loop, so that an empty list of indices raises nothing. The indices come from
  \<^verbatim>\<open>enumerate(pairs_list)\<close> and the array is as long as \<open>pairs_list\<close>: every index is in range.
\<close>

fun fill_uniform :: "nat list \<Rightarrow> int \<Rightarrow> double list \<Rightarrow> error + double list" where
  "fill_uniform [] k guess_arr = Inr guess_arr"
| "fill_uniform (idx # rest) k guess_arr =
     (case float_div_int 1 k of
        Inl e \<Rightarrow> Inl e
      | Inr v \<Rightarrow> fill_uniform rest k (guess_arr[idx := v]))"

text \<open>The default guess: all ones, then \<open>1.0 / k\<close> on the \<open>k\<close> indices of each character.\<close>

fun uniform_loop :: "production list \<Rightarrow> char list \<Rightarrow> double list \<Rightarrow> error + double list" where
  "uniform_loop pairs_list [] guess_arr = Inr guess_arr"
| "uniform_loop pairs_list (char # chars) guess_arr =
     (let indices_for_char = indices_for_char pairs_list char;
          k = int (length indices_for_char)
      in case fill_uniform indices_for_char k guess_arr of
           Inl e \<Rightarrow> Inl e
         | Inr guess_arr' \<Rightarrow> uniform_loop pairs_list chars guess_arr')"

definition uniform_guess :: "production list \<Rightarrow> char list \<Rightarrow> error + double list" where
  "uniform_guess pairs_list unique_chars =
     uniform_loop pairs_list unique_chars (replicate (length pairs_list) 1)"

text \<open>
  The loop over the characters on a supplied guess. \<^verbatim>\<open>guess_arr[indices_for_char] /= sum_for_char\<close>
  divides the entries at these indices, read before the assignment, by the sum.
\<close>

fun normalize_loop :: "production list \<Rightarrow> char list \<Rightarrow> double list \<Rightarrow> error + double list" where
  "normalize_loop pairs_list [] guess_arr = Inr guess_arr"
| "normalize_loop pairs_list (char # chars) guess_arr =
     (let indices_for_char = indices_for_char pairs_list char;
          sum_for_char = np_sum (map ((!) guess_arr) indices_for_char)
      in if double_less tiny sum_for_char then
           normalize_loop pairs_list chars
             (fold (\<lambda>idx arr. arr[idx := double_div (guess_arr ! idx) sum_for_char])
                indices_for_char guess_arr)
         else
           let k = int (length indices_for_char)
           in case fill_uniform indices_for_char k guess_arr of
                Inl e \<Rightarrow> Inl e
              | Inr guess_arr' \<Rightarrow> normalize_loop pairs_list chars guess_arr')"

definition normalize_guess :: "production list \<Rightarrow> char list \<Rightarrow> double list \<Rightarrow> error + double list" where
  "normalize_guess pairs_list unique_chars guess = normalize_loop pairs_list unique_chars guess"

text \<open>
  \<^verbatim>\<open>array_to_dict\<close>: \<^verbatim>\<open>var_array[i]\<close> raises \<^verbatim>\<open>IndexError\<close> when the array is shorter than
  \<open>pairs_list\<close>; the entries of a longer array beyond that length are not read.
\<close>

definition array_to_dict ::
    "production list \<Rightarrow> double list \<Rightarrow> error + (production \<times> double) list" where
  "array_to_dict pairs_list var_array =
     (if length var_array < length pairs_list then Inl IndexError
      else Inr (zip pairs_list var_array))"

text \<open>
  The objective: for each frequency map the product of \<^verbatim>\<open>x_val ** exponent\<close>, the products
  summed and the sum negated. \<^verbatim>\<open>distribution[(c, r)]\<close> raises \<^verbatim>\<open>KeyError\<close> on a missing production.
\<close>

fun product_loop ::
    "(double \<Rightarrow> int \<Rightarrow> double) \<Rightarrow> (production \<times> double) list \<Rightarrow> (production \<times> int) list
      \<Rightarrow> double \<Rightarrow> error + double" where
  "product_loop float_pow distribution [] prod_val = Inr prod_val"
| "product_loop float_pow distribution ((cr, exponent) # rest) prod_val =
     (case dict_item distribution cr of
        Inl e \<Rightarrow> Inl e
      | Inr x_val \<Rightarrow>
          product_loop float_pow distribution rest
            (double_mul prod_val (float_pow x_val exponent)))"

fun sum_loop ::
    "(double \<Rightarrow> int \<Rightarrow> double) \<Rightarrow> (production \<times> double) list \<Rightarrow> (production \<times> int) list list
      \<Rightarrow> double \<Rightarrow> error + double" where
  "sum_loop float_pow distribution [] total_sum = Inr total_sum"
| "sum_loop float_pow distribution (freq_map # rest) total_sum =
     (case product_loop float_pow distribution freq_map 1 of
        Inl e \<Rightarrow> Inl e
      | Inr prod_val \<Rightarrow> sum_loop float_pow distribution rest (double_add total_sum prod_val))"

definition objective ::
    "(double \<Rightarrow> int \<Rightarrow> double) \<Rightarrow> production list \<Rightarrow> double list
      \<Rightarrow> (production \<times> int) list list \<Rightarrow> error + double" where
  "objective float_pow pairs_list var_array freq_list_for_dicts =
     (case array_to_dict pairs_list var_array of
        Inl e \<Rightarrow> Inl e
      | Inr distribution \<Rightarrow>
          (case sum_loop float_pow distribution freq_list_for_dicts 0 of
             Inl e \<Rightarrow> Inl e
           | Inr total_sum \<Rightarrow> Inr (double_neg total_sum)))"

text \<open>The constraint of one character: the sum of its entries minus \<^verbatim>\<open>1.0\<close>.\<close>

definition constraint_sum_for_char ::
    "production list \<Rightarrow> double list \<Rightarrow> char \<Rightarrow> error + double" where
  "constraint_sum_for_char pairs_list var_array char =
     (case array_to_dict pairs_list var_array of
        Inl e \<Rightarrow> Inl e
      | Inr distribution \<Rightarrow>
          Inr (double_sub
                 (fold (\<lambda>(cr, prob) sum_for_char.
                          if fst cr = char then double_add sum_for_char prob else sum_for_char)
                    distribution 0)
                 1))"

text \<open>Step 7 of \<^verbatim>\<open>solve_s0l\<close>: the tuple returned for a result of the optimiser.\<close>

type_synonym run_result =
  "bool \<times> double option \<times> (production \<times> double) list option \<times> production list"

definition analyze_result :: "production list \<Rightarrow> opt_result \<Rightarrow> error + run_result" where
  "analyze_result pairs_list res =
     (if res_success res then
        (case array_to_dict pairs_list (res_x res) of
           Inl e \<Rightarrow> Inl e
         | Inr final_distribution \<Rightarrow>
             Inr (True, Some (double_neg (res_fun res)), Some final_distribution, pairs_list))
      else Inr (False, None, None, pairs_list))"

text \<open>
  Steps 3 to 7 of \<^verbatim>\<open>solve_s0l\<close>: the call of the optimiser from the start vector \<open>guess_arr\<close>, with
  the bounds \<^verbatim>\<open>[(0, 1)] * len(pairs_list)\<close> and one constraint for each character, and the
  analysis of its result. An exception of the optimiser is not caught.
\<close>

definition optimize_from ::
    "minimizer \<Rightarrow> (double \<Rightarrow> int \<Rightarrow> double) \<Rightarrow> derivation list \<Rightarrow> double list
      \<Rightarrow> error + run_result" where
  "optimize_from minimize float_pow dict_list guess_arr =
     (let freq_list = map counter dict_list;
          pairs_list = pairs_list_of dict_list;
          unique_chars = unique_chars_of pairs_list
      in case minimize (\<lambda>var_array. objective float_pow pairs_list var_array freq_list)
                guess_arr
                (replicate (length pairs_list) (0, 1))
                (map (\<lambda>char var_array. constraint_sum_for_char pairs_list var_array char)
                   unique_chars) of
           Inl e \<Rightarrow> Inl e
         | Inr res \<Rightarrow> analyze_result pairs_list res)"

text \<open>
  \<^verbatim>\<open>solve_s0l\<close>. \<^verbatim>\<open>init_guess=None\<close> is \<open>None\<close>; a supplied guess is a list of floats. The only
  \<^verbatim>\<open>raise\<close> statement of the function is the length check.
\<close>

definition solve_s0l ::
    "minimizer \<Rightarrow> (double \<Rightarrow> int \<Rightarrow> double) \<Rightarrow> derivation list \<Rightarrow> double list option
      \<Rightarrow> error + run_result" where
  "solve_s0l minimize float_pow dict_list init_guess =
     (let pairs_list = pairs_list_of dict_list;
          unique_chars = unique_chars_of pairs_list
      in case (case init_guess of
                 None \<Rightarrow> uniform_guess pairs_list unique_chars
               | Some guess \<Rightarrow>
                   if length guess \<noteq> length pairs_list then
                     Inl (ValueError_init_guess (length guess) (length pairs_list))
                   else normalize_guess pairs_list unique_chars guess) of
           Inl e \<Rightarrow> Inl e
         | Inr guess_arr \<Rightarrow> optimize_from minimize float_pow dict_list guess_arr)"

text \<open>
  \<^verbatim>\<open>solve_with_restarts\<close>. \<open>best_objective\<close> starts at \<^verbatim>\<open>-np.inf\<close>. \<open>consider_run\<close> is the
  \<^verbatim>\<open>if success and val > best_objective:\<close> block, which stands after the first run and inside
  the loop; all four assignments of the block, the increment of \<open>success_count\<close> among them, are
  under the condition. \<open>val\<close> is \<^verbatim>\<open>None\<close> only when \<open>success\<close> is false, and then the comparison is
  not evaluated.
\<close>

type_synonym restart_state =
  "double \<times> (production \<times> double) list option \<times> production list option \<times> int"

definition consider_run :: "run_result \<Rightarrow> restart_state \<Rightarrow> restart_state" where
  "consider_run run st =
     (case (run, st) of
        ((success, val, sol, pairs_list),
         (best_objective, best_distribution, best_pairs, success_count)) \<Rightarrow>
          (case (if success then val else None) of
             None \<Rightarrow> (best_objective, best_distribution, best_pairs, success_count)
           | Some v \<Rightarrow>
               if double_less best_objective v then (v, sol, Some pairs_list, success_count + 1)
               else (best_objective, best_distribution, best_pairs, success_count)))"

text \<open>
  \<^verbatim>\<open>np.random.random(n)\<close>: \<open>n\<close> draws, each an integer of 53 bits of the generator over \<open>2 ^ 53\<close>.
\<close>

definition unit_double :: "nat \<Rightarrow> double" where
  "unit_double k = Finite (of_nat (k mod 2 ^ 53) / 2 ^ 53)"

fun random_sample :: "('g \<Rightarrow> nat \<times> 'g) \<Rightarrow> nat \<Rightarrow> 'g \<Rightarrow> double list \<times> 'g" where
  "random_sample random 0 rng = ([], rng)"
| "random_sample random (Suc n) rng =
     (let (k, rng') = random rng;
          (vals, rng'') = random_sample random n rng'
      in (unit_double k # vals, rng''))"

text \<open>
  One random guess: for each character, draws divided by their sum, or \<^verbatim>\<open>1.0 / len(indices)\<close>
  everywhere when the sum is below the threshold. \<open>guess_for_char\<close> is as long as \<open>indices\<close>.
\<close>

fun random_guess ::
    "('g \<Rightarrow> nat \<times> 'g) \<Rightarrow> production list \<Rightarrow> char list \<Rightarrow> double list \<Rightarrow> 'g
      \<Rightarrow> error + double list \<times> 'g" where
  "random_guess random pairs_list_global [] guess_arr rng = Inr (guess_arr, rng)"
| "random_guess random pairs_list_global (char # chars) guess_arr rng =
     (let indices = indices_for_char pairs_list_global char;
          (rand_vals, rng') = random_sample random (length indices) rng;
          sum_rand = np_sum rand_vals
      in case (if double_less sum_rand tiny then
                 (case float_div_int 1 (int (length indices)) of
                    Inl e \<Rightarrow> Inl e
                  | Inr v \<Rightarrow> Inr (replicate (length indices) v))
               else Inr (map (\<lambda>v. double_div v sum_rand) rand_vals)) of
           Inl e \<Rightarrow> Inl e
         | Inr guess_for_char \<Rightarrow>
             random_guess random pairs_list_global chars
               (fold (\<lambda>(idx, v) arr. arr[idx := v]) (zip indices guess_for_char) guess_arr) rng')"

fun restart_loop ::
    "minimizer \<Rightarrow> (double \<Rightarrow> int \<Rightarrow> double) \<Rightarrow> ('g \<Rightarrow> nat \<times> 'g) \<Rightarrow> derivation list
      \<Rightarrow> production list \<Rightarrow> char list \<Rightarrow> nat \<Rightarrow> restart_state \<Rightarrow> 'g \<Rightarrow> error + restart_state" where
  "restart_loop minimize float_pow random dict_list pairs_list_global unique_chars_global 0 st rng =
     Inr st"
| "restart_loop minimize float_pow random dict_list pairs_list_global unique_chars_global (Suc n)
     st rng =
     (case random_guess random pairs_list_global unique_chars_global
             (replicate (length pairs_list_global) 0) rng of
        Inl e \<Rightarrow> Inl e
      | Inr (guess_arr, rng') \<Rightarrow>
          (case solve_s0l minimize float_pow dict_list (Some guess_arr) of
             Inl e \<Rightarrow> Inl e
           | Inr run \<Rightarrow>
               restart_loop minimize float_pow random dict_list pairs_list_global
                 unique_chars_global n (consider_run run st) rng'))"

definition solve_with_restarts ::
    "minimizer \<Rightarrow> (double \<Rightarrow> int \<Rightarrow> double) \<Rightarrow> ('g \<Rightarrow> nat \<times> 'g) \<Rightarrow> 'g \<Rightarrow> derivation list
      \<Rightarrow> nat \<Rightarrow> error + restart_state" where
  "solve_with_restarts minimize float_pow random rng dict_list n_restarts =
     (case solve_s0l minimize float_pow dict_list None of
        Inl e \<Rightarrow> Inl e
      | Inr run \<Rightarrow>
          let st = consider_run run (NegInf, None, None, 0);
              pairs_list_global = pairs_list_of dict_list;
              unique_chars_global = unique_chars_of pairs_list_global
          in restart_loop minimize float_pow random dict_list pairs_list_global
               unique_chars_global n_restarts st rng)"

section \<open>The enumeration as a pure function\<close>

text \<open>
  The definitions of this section are not translated from the source: they describe, without
  state, what the search is proved to compute.

  \<open>parts n rem\<close> lists the ways to cut \<open>rem\<close> into \<open>n\<close> consecutive pieces in the order the search
  visits them: every piece but the last is not empty and stops before the last character of
  \<open>rem\<close>, the last piece is the remainder. No piece is cut for \<open>n = 0\<close>.
\<close>

fun parts :: "nat \<Rightarrow> 'a list \<Rightarrow> 'a list list list" where
  "parts 0 rem = [[]]"
| "parts (Suc 0) rem = [[rem]]"
| "parts (Suc (Suc n)) rem =
     concat (map (\<lambda>m. map ((#) (take m rem)) (parts (Suc n) (drop m rem))) [1..<length rem])"

text \<open>\<open>mkrow i j cs ps\<close> pairs the characters \<open>cs\<close> of string \<open>i\<close>, from position \<open>j\<close> on, with the pieces.\<close>

fun mkrow :: "nat \<Rightarrow> nat \<Rightarrow> string \<Rightarrow> string list \<Rightarrow> derivation" where
  "mkrow i j (c # cs) (p # ps) = ((i, j), (c, p)) # mkrow i (Suc j) cs ps"
| "mkrow i j cs ps = []"

text \<open>The derivations of a sequence whose first string has index \<open>i\<close>.\<close>

fun derivs :: "nat \<Rightarrow> string list \<Rightarrow> derivation list" where
  "derivs i (s # t # rest) =
     concat (map (\<lambda>ps. map ((@) (mkrow i 0 s ps)) (derivs (Suc i) (t # rest)))
               (parts (length s) t))"
| "derivs i strs = [[]]"

text \<open>
  What the search still has to append to the recorded part of the dictionary when it stands at
  \<open>(si, ci)\<close> with the cursor \<open>l\<close>.
\<close>

definition branches :: "string list \<Rightarrow> nat \<Rightarrow> nat \<Rightarrow> int \<Rightarrow> derivation list" where
  "branches seq si ci l =
     (if Suc si < length seq then
        concat (map (\<lambda>ps. map ((@) (mkrow si ci (drop ci (seq ! si)) ps))
                              (derivs (Suc si) (drop (Suc si) seq)))
                 (parts (length (seq ! si) - ci) (drop (nat (l + 1)) (seq ! Suc si))))
      else [[]])"

text \<open>
  The keys of a derivation in insertion order, and the number of keys that precede
  \<open>(si, ci)\<close>. The dictionary of the search always holds a prefix of these keys (\<open>keys_ok\<close>);
  \<open>dfs_post\<close> is what a call of the search guarantees: it returns, it appends \<open>outs\<close> to the
  results, and it leaves the first \<open>n\<close> entries of the dictionary as they were.
\<close>

fun positions_from :: "nat \<Rightarrow> string list \<Rightarrow> position list" where
  "positions_from i (s # t # rest) = map (Pair i) [0..<length s] @ positions_from (Suc i) (t # rest)"
| "positions_from i strs = []"

definition offset :: "string list \<Rightarrow> nat \<Rightarrow> nat \<Rightarrow> nat" where
  "offset seq si ci = sum_list (map length (take si seq)) + ci"

definition keys_ok :: "string list \<Rightarrow> derivation \<Rightarrow> bool" where
  "keys_ok seq cm = (map fst cm = take (length cm) (positions_from 0 seq))"

definition dfs_post ::
  "string list \<Rightarrow> nat \<Rightarrow> derivation \<Rightarrow> derivation list \<Rightarrow> derivation list
    \<Rightarrow> error + derivation \<times> derivation list \<Rightarrow> bool" where
  "dfs_post seq n cm am outs res =
     (\<exists>cm'. res = Inr (cm', am @ outs) \<and> keys_ok seq cm' \<and> length cm \<le> length cm' \<and>
            take n cm' = take n cm)"

text \<open>
  The substrings a derivation assigns to the positions \<open>0..n-1\<close> of string \<open>i\<close>, in position order;
  \<open>None\<close> when one of the positions has no entry.
\<close>

definition assigned :: "derivation \<Rightarrow> nat \<Rightarrow> nat \<Rightarrow> string list option" where
  "assigned d i n = those (map (\<lambda>j. map_option snd (map_of d (i, j))) [0..<n])"


section \<open>Notions of the specification\<close>

text \<open>
  The mappings of claim C2, in the words of the specification: a total mapping on the positions
  of the non-final strings that gives position \<open>(i, j)\<close> the character \<open>seq[i][j]\<close> and a non-empty
  substring, the substrings of string \<open>i\<close> in position order being consecutive pieces that make
  up \<open>seq[i+1]\<close>. \<open>valid_from\<close> is the same for a sequence whose first string has index \<open>i\<close>.
\<close>

definition valid_mapping :: "string list \<Rightarrow> (position \<rightharpoonup> production) \<Rightarrow> bool" where
  "valid_mapping seq m =
     (dom m = {(i, j). Suc i < length seq \<and> j < length (seq ! i)} \<and>
      (\<forall>i. Suc i < length seq \<longrightarrow>
         (\<exists>ws. length ws = length (seq ! i) \<and> concat ws = seq ! Suc i \<and>
               (\<forall>j<length (seq ! i). ws ! j \<noteq> [] \<and> m (i, j) = Some (seq ! i ! j, ws ! j)))))"

definition valid_from :: "nat \<Rightarrow> string list \<Rightarrow> (position \<rightharpoonup> production) \<Rightarrow> bool" where
  "valid_from i strs m =
     (dom m = set (positions_from i strs) \<and>
      (\<forall>k. Suc k < length strs \<longrightarrow>
         (\<exists>ws. length ws = length (strs ! k) \<and> concat ws = strs ! Suc k \<and>
               (\<forall>j<length (strs ! k). ws ! j \<noteq> [] \<and> m (i + k, j) = Some (strs ! k ! j, ws ! j)))))"

text \<open>
  The quantities of claims C3 to C5, in the words of the specification: the concentration factor
  of a derivation is the product, over the distinct productions it uses, of \<open>count ^ count\<close>;
  the normalising constant is one over the product, over the distinct characters of the
  non-final strings, of \<open>count ^ count\<close> (\<open>char_product\<close> is that product); the probability mass
  of a symbol is the sum of the probabilities of the entries of a distribution whose left side
  is that symbol, the sum of the values of the doubles taken exactly.
\<close>

definition concentration :: "derivation \<Rightarrow> int" where
  "concentration d =
     (\<Prod>p\<in>set (map snd d). int (count_list (map snd d) p) ^ count_list (map snd d) p)"

definition char_product :: "string list \<Rightarrow> int" where
  "char_product seq =
     (\<Prod>c\<in>set (concat (butlast seq)).
        int (count_list (concat (butlast seq)) c) ^ count_list (concat (butlast seq)) c)"

definition probability_mass :: "(production \<times> double) list \<Rightarrow> char \<Rightarrow> rat" where
  "probability_mass distribution c =
     sum_list (map (\<lambda>e. value_of (snd e)) (filter (\<lambda>e. fst (fst e) = c) distribution))"

text \<open>
  Stand-ins for the library functions, used to run the optimiser on concrete inputs: a power
  by repeated multiplication, an optimiser that reports convergence at its start vector, and
  one that, as \<^verbatim>\<open>scipy.optimize.minimize\<close> does, raises on an empty start vector.
\<close>

definition repeated_mul :: "double \<Rightarrow> int \<Rightarrow> double" where
  "repeated_mul x n = (double_mul x ^^ nat n) 1"

definition immediate_minimize :: minimizer where
  "immediate_minimize f x0 bounds constraints =
     (case f x0 of
        Inl e \<Rightarrow> Inl e
      | Inr v \<Rightarrow> Inr \<lparr>res_success = True, res_fun = v, res_x = x0\<rparr>)"

definition nonempty_minimize :: minimizer where
  "nonempty_minimize f x0 bounds constraints =
     (if x0 = [] then Inl (OptimizerError ''empty start vector'')
      else immediate_minimize f x0 bounds constraints)"

text \<open>
  What one run of \<open>solve_s0l\<close> returns on the single derivation \<^verbatim>\<open>{(0, 0): ('A', 'B')}\<close>: the only
  production is \<^verbatim>\<open>('A', 'B')\<close>, every start vector is \<open>[1.0]\<close> after normalisation, and the
  optimiser is called on the same problem from the same start, whatever the guess was.
\<close>

definition single_run :: "minimizer \<Rightarrow> (double \<Rightarrow> int \<Rightarrow> double) \<Rightarrow> error + run_result" where
  "single_run minimize float_pow =
     (case minimize (\<lambda>var_array. objective float_pow [(CHR ''A'', ''B'')] var_array
                                 (map counter [[((0, 0), (CHR ''A'', ''B''))]]))
             [1] [(0, 1)]
             [\<lambda>var_array. constraint_sum_for_char [(CHR ''A'', ''B'')] var_array (CHR ''A'')] of
        Inl e \<Rightarrow> Inl e
      | Inr res \<Rightarrow> analyze_result [(CHR ''A'', ''B'')] res)"

text \<open>
  C8 in the words of the specification. The entries of a symbol are the entries of the guess
  that stand at the productions of that symbol. In the renormalised guess every entry is
  divided by the sum of the entries of its symbol, or is the uniform share \<open>1.0 / k\<close>, for the
  \<open>k\<close> productions of its symbol, when that sum is not above the threshold. The uniform guess
  gives every production the uniform share of its symbol.
\<close>

definition uniform_share :: "nat \<Rightarrow> double" where
  "uniform_share k = double_div 1 (round_ieee False (of_nat k))"

definition symbol_entries :: "production list \<Rightarrow> double list \<Rightarrow> char \<Rightarrow> double list" where
  "symbol_entries pairs guess c = map snd (filter (\<lambda>e. fst (fst e) = c) (zip pairs guess))"

definition renormalized :: "production list \<Rightarrow> double list \<Rightarrow> double list" where
  "renormalized pairs guess =
     map (\<lambda>e. let own = symbol_entries pairs guess (fst (fst e)); s = np_sum own
              in if double_less tiny s then double_div (snd e) s
                 else uniform_share (length own))
         (zip pairs guess)"

definition uniform_per_symbol :: "production list \<Rightarrow> double list" where
  "uniform_per_symbol pairs =
     map (\<lambda>p. uniform_share (length (filter (\<lambda>q. fst q = fst p) pairs))) pairs"


section \<open>Properties of the rounding\<close>

lemma bitlen_powi:
  assumes "0 < a"
  shows "(2::rat) powi (bitlen a - 1) \<le> of_int a" "of_int a < (2::rat) powi (bitlen a)"
proof -
  from assms have b1: "1 \<le> bitlen a" by (simp add: bitlen_alt_def)
  note bb = bitlen_bounds [OF assms]
  have "(2::rat) powi (bitlen a - 1) = of_int (2 ^ nat (bitlen a - 1))"
    using b1 by (simp add: power_int_def)
  also have "\<dots> \<le> of_int a" using bb by (simp only: of_int_le_iff)
  finally show "(2::rat) powi (bitlen a - 1) \<le> of_int a" .
  have "(of_int a :: rat) < of_int (2 ^ nat (bitlen a))" using bb by (simp only: of_int_less_iff)
  also have "\<dots> = (2::rat) powi (bitlen a)" using b1 by (simp add: power_int_def)
  finally show "of_int a < (2::rat) powi (bitlen a)" .
qed

lemma powi_less_cancel: "(2::rat) powi m < 2 powi n \<Longrightarrow> m < n"
proof (rule ccontr)
  assume "(2::rat) powi m < 2 powi n" and "\<not> m < n"
  then have "n \<le> m" by simp
  then have "(2::rat) powi n \<le> 2 powi m" by (rule power_int_increasing) simp
  with \<open>(2::rat) powi m < 2 powi n\<close> show False by simp
qed

text \<open>\<open>ilog2 x\<close> is the binary exponent of \<open>x\<close>.\<close>

lemma ilog2_bounds:
  assumes "0 < x"
  shows "2 powi (ilog2 x) \<le> x" "x < 2 powi (ilog2 x + 1)"
proof -
  obtain a b where q: "quotient_of x = (a, b)" by (cases "quotient_of x")
  then have b: "0 < b" by (rule quotient_of_denom_pos)
  from q have x: "x = of_int a / of_int b" by (rule quotient_of_div)
  from assms b x have a: "0 < a" by (simp add: zero_less_divide_iff)
  define d where "d = bitlen a - bitlen b"
  have il: "ilog2 x = (if 2 powi d \<le> x then d else d - 1)"
    by (simp add: ilog2_def q d_def)
  have bpos: "(0::rat) < of_int b" using b by simp
  have "(2::rat) powi (d - 1) = 2 powi (bitlen a - 1) / 2 powi (bitlen b)"
    by (simp add: d_def power_int_diff)
  also have "\<dots> \<le> of_int a / 2 powi (bitlen b)"
    using bitlen_powi(1) [OF a] by (simp add: divide_right_mono)
  also have "\<dots> < of_int a / of_int b"
    using bitlen_powi(2) [OF b] a bpos by (simp add: divide_strict_left_mono)
  finally have lo: "(2::rat) powi (d - 1) < x" by (simp add: x)
  have "x = of_int a / of_int b" by (rule x)
  also have "\<dots> < 2 powi (bitlen a) / of_int b"
    using bitlen_powi(2) [OF a] bpos by (simp add: divide_strict_right_mono)
  also have "\<dots> \<le> 2 powi (bitlen a) / 2 powi (bitlen b - 1)"
    using bitlen_powi(1) [OF b] bpos by (intro divide_left_mono) simp_all
  also have "\<dots> = 2 powi (bitlen a - (bitlen b - 1))"
    by (rule power_int_diff [symmetric]) simp
  also have "bitlen a - (bitlen b - 1) = d + 1" by (simp add: d_def)
  finally have hi: "x < 2 powi (d + 1)" .
  show "2 powi (ilog2 x) \<le> x" using lo by (simp add: il)
  show "x < 2 powi (ilog2 x + 1)" using hi by (simp add: il not_le)
qed

lemma ilog2_zero: "ilog2 0 = - 2"
  by code_simp

lemma ilog2_ge_iff:
  assumes "0 \<le> r"
  shows "n \<le> ilog2 r \<longleftrightarrow> (if r = 0 then n \<le> - 2 else 2 powi n \<le> r)"
proof (cases "r = 0")
  case True
  then show ?thesis by (simp add: ilog2_zero)
next
  case False
  with assms have r: "0 < r" by simp
  have "n \<le> ilog2 r" if "2 powi n \<le> r"
  proof -
    from that ilog2_bounds(2) [OF r] have "(2::rat) powi n < 2 powi (ilog2 r + 1)"
      by (rule le_less_trans)
    then have "n < ilog2 r + 1" by (rule powi_less_cancel)
    then show ?thesis by simp
  qed
  moreover have "2 powi n \<le> r" if "n \<le> ilog2 r"
  proof -
    from that have "(2::rat) powi n \<le> 2 powi (ilog2 r)" by (rule power_int_increasing) simp
    with ilog2_bounds(1) [OF r] show ?thesis by simp
  qed
  ultimately show ?thesis using False by auto
qed

lemma round_even_near: "\<bar>of_int (round_even y) - y\<bar> \<le> 1 / 2"
proof -
  have "of_int \<lfloor>y\<rfloor> \<le> y" "y < of_int \<lfloor>y\<rfloor> + 1" by linarith+
  then show ?thesis unfolding round_even_def Let_def by (auto simp: abs_le_iff)
qed

lemma round_even_nonneg: "0 \<le> y \<Longrightarrow> 0 \<le> round_even y"
  unfolding round_even_def Let_def by auto

text \<open>
  The rounded value, with the overflow stated on the value itself: for a positive \<open>x\<close>,
  \<open>round_magnitude x\<close> is \<open>None\<close> exactly when the nearest multiple reaches \<open>2 ^ 1024\<close>.
\<close>

lemma nearest_multiple_nonneg: "0 < x \<Longrightarrow> 0 \<le> nearest_multiple x"
  unfolding nearest_multiple_def Let_def
  by (intro mult_nonneg_nonneg) (simp_all add: round_even_nonneg)

lemma round_magnitude_eq:
  assumes "0 < x"
  shows "round_magnitude x =
    (if 2 powi 1024 \<le> nearest_multiple x then None else Some (nearest_multiple x))"
proof -
  have "(1024 \<le> ilog2 (nearest_multiple x)) = (2 powi 1024 \<le> nearest_multiple x)"
    using ilog2_ge_iff [OF nearest_multiple_nonneg [OF assms], of 1024]
    by (cases "nearest_multiple x = 0") simp_all
  then show ?thesis
    by (simp add: round_magnitude_def Let_def)
qed

lemma nearest_multiple_near:
  "\<bar>nearest_multiple x - x\<bar> \<le> 2 powi (max (ilog2 x - 52) (- 1074)) / 2"
proof -
  define e where "e = max (ilog2 x - 52) (- 1074)"
  have p: "(0::rat) < 2 powi e" by simp
  have r: "nearest_multiple x = of_int (round_even (x / 2 powi e)) * 2 powi e"
    by (simp add: nearest_multiple_def e_def Let_def)
  have "nearest_multiple x - x = (of_int (round_even (x / 2 powi e)) - x / 2 powi e) * 2 powi e"
    using p by (simp add: r algebra_simps)
  then have "\<bar>nearest_multiple x - x\<bar> =
      \<bar>of_int (round_even (x / 2 powi e)) - x / 2 powi e\<bar> * 2 powi e"
    using p by (simp add: abs_mult)
  also have "\<dots> \<le> (1 / 2) * 2 powi e"
    using round_even_near [of "x / 2 powi e"] p by (intro mult_right_mono) simp_all
  finally show ?thesis by (simp add: e_def)
qed

text \<open>No overflow below \<open>2 ^ 1023\<close>.\<close>

lemma round_magnitude_Some:
  assumes "0 < x" "x < 2 powi 1023"
  shows "round_magnitude x = Some (nearest_multiple x)"
proof -
  define e where "e = max (ilog2 x - 52) (- 1074)"
  have "(2::rat) powi (ilog2 x) < 2 powi 1023"
    using ilog2_bounds(1) [OF assms(1)] assms(2) by (rule le_less_trans)
  then have "ilog2 x < 1023" by (rule powi_less_cancel)
  then have e: "e \<le> 970" by (simp add: e_def)
  have "\<bar>nearest_multiple x - x\<bar> \<le> 2 powi e / 2"
    unfolding e_def by (rule nearest_multiple_near)
  also have "\<dots> \<le> 2 powi 970 / 2"
    using e by (intro divide_right_mono power_int_increasing) simp_all
  finally have "nearest_multiple x \<le> x + 2 powi 970 / 2" by (simp add: abs_le_iff)
  also have "\<dots> < 2 powi 1023 + 2 powi 970 / 2" using assms(2) by simp
  also have "\<dots> < 2 powi 1024" by simp
  finally have "\<not> 2 powi 1024 \<le> nearest_multiple x" by simp
  then show ?thesis by (simp add: round_magnitude_eq [OF assms(1)])
qed

text \<open>From \<open>2 ^ -1022\<close> on (the normal doubles) the relative error is at most \<open>2 ^ -53\<close>.\<close>

lemma nearest_multiple_relative:
  assumes "2 powi (- 1022) \<le> x"
  shows "\<bar>nearest_multiple x - x\<bar> \<le> x / 2 ^ 53"
proof -
  have x: "0 < x" using assms(1) by (rule less_le_trans [rotated]) simp
  have "(2::rat) powi (- 1022) < 2 powi (ilog2 x + 1)"
    using assms(1) ilog2_bounds(2) [OF x] by (rule le_less_trans)
  then have "- 1022 < ilog2 x + 1" by (rule powi_less_cancel)
  then have e: "max (ilog2 x - 52) (- 1074) = ilog2 x - 52" by simp
  have "\<bar>nearest_multiple x - x\<bar> \<le> 2 powi (ilog2 x - 52) / 2"
    using nearest_multiple_near [of x] by (simp only: e)
  also have "\<dots> = 2 powi (ilog2 x) / 2 ^ 53"
    by (simp add: power_int_diff)
  also have "\<dots> \<le> x / 2 ^ 53"
    using ilog2_bounds(1) [OF x] by (simp add: divide_right_mono)
  finally show ?thesis .
qed

lemma nearest_multiple_pos:
  assumes "2 powi (- 1022) \<le> x"
  shows "0 < nearest_multiple x"
proof -
  have x: "0 < x" using assms(1) by (rule less_le_trans [rotated]) simp
  have "x / 2 ^ 53 < x" using x by (simp add: field_simps)
  moreover have "x - nearest_multiple x \<le> x / 2 ^ 53"
    using nearest_multiple_relative [OF assms] by (simp only: abs_le_iff) simp
  ultimately show ?thesis by linarith
qed

lemma nearest_multiple_one: "nearest_multiple 1 = 1"
  by code_simp


section \<open>Properties of the selector on degenerate input\<close>

lemma get_derivations_single: "get_derivations [s] = Inr [[]]"
  by (simp add: get_derivations_def)

lemma get_derivations_Nil: "get_derivations [] = Inl IndexError"
  by (simp add: get_derivations_def)

lemma true_div_one_one: "true_div 1 1 = Inr 1"
  by code_simp

lemma int_to_double_one: "int_to_double 1 = Inr 1"
  by code_simp

lemma double_mul_one_one: "double_mul 1 1 = 1"
  by code_simp

lemma overall_single: "overall_dervs_maxprob [s] = Inr ([], [], 1)"
  by (simp add: overall_dervs_maxprob_def get_derivations_single py_max_def
      optimal_scaled_probability_val_def non_constant_factor_def get_prod_count_def
      constant_factor_def true_div_one_one int_to_double_one double_mul_one_one)

lemma get_derivations_AB_A: "get_derivations [''AB'', ''A''] = Inr []"
  by (simp add: get_derivations_def)

text \<open>
  C10. On a sequence of exactly one string, \<open>get_derivations\<close> returns the list holding just the
  empty mapping, and \<open>overall_dervs_maxprob\<close> returns the empty distribution, the empty
  derivation and the final probability 1.
\<close>

theorem single_string_sequence:
  "get_derivations [s] = Inr [[]] \<and> overall_dervs_maxprob [s] = Inr ([], [], 1)"
  by (simp add: get_derivations_single overall_single)

text \<open>
  C6, as the code has it. The selector makes no check of the length of the sequence and has no
  error of its own for a short one: on a sequence of fewer than two strings it returns the
  trivial result (one string), or fails with the \<^verbatim>\<open>IndexError\<close> of \<^verbatim>\<open>seq[0]\<close> (no string).
\<close>

theorem short_sequence_no_dedicated_error:
  "length seq < 2 \<Longrightarrow>
     overall_dervs_maxprob seq = (if seq = [] then Inl IndexError else Inr ([], [], 1))"
proof (cases seq)
  case Nil
  then show ?thesis
    by (simp add: overall_dervs_maxprob_def get_derivations_Nil)
next
  case (Cons s rest)
  assume "length seq < 2"
  with Cons have "seq = [s]" by simp
  then show ?thesis by (simp add: overall_single)
qed

theorem short_sequence_no_dedicated_error_witness:
  "length ([] :: string list) < 2 \<and> overall_dervs_maxprob [] = Inl IndexError"
  using short_sequence_no_dedicated_error [of "[]"] by simp

text \<open>
  C6 as stated fails: the one-string sequence \<^verbatim>\<open>['A']\<close> has fewer than two strings, and the
  selector returns a result on it instead of failing.
\<close>

theorem short_sequence_returns_counterexample:
  "length [''A''] < 2 \<and> overall_dervs_maxprob [''A''] = Inr ([], [], 1)"
  by (simp add: overall_single)

text \<open>
  C7, as the code has it. When the enumeration is empty the selector does operate on the empty
  list: \<^verbatim>\<open>max(scaled_probs)\<close> is evaluated and its \<^verbatim>\<open>ValueError\<close> is what the caller gets.
\<close>

theorem empty_enumeration_raises_max_error:
  "get_derivations seq = Inr [] \<Longrightarrow> overall_dervs_maxprob seq = Inl ValueError_max_empty"
  by (simp add: overall_dervs_maxprob_def py_max_def)

theorem empty_enumeration_raises_max_error_witness:
  "get_derivations [''AB'', ''A''] = Inr [] \<and>
   overall_dervs_maxprob [''AB'', ''A''] = Inl ValueError_max_empty"
  using empty_enumeration_raises_max_error [of "[''AB'', ''A'']"] get_derivations_AB_A by simp

text \<open>
  C7 as stated fails: \<^verbatim>\<open>['ABC', 'XY']\<close> has no derivation (three characters cannot share two),
  and the failure of the selector is the undifferentiated error of \<^verbatim>\<open>max\<close> on an empty list.
\<close>

theorem no_derivation_error_counterexample:
  "get_derivations [''ABC'', ''XY''] = Inr [] \<and>
   overall_dervs_maxprob [''ABC'', ''XY''] = Inl ValueError_max_empty"
  by code_simp

section \<open>Correctness of the enumerator\<close>

subsection \<open>Slices and the unfolding of the pure enumeration\<close>

lemma slice_from_nonneg: "0 \<le> a \<Longrightarrow> slice_from t a = drop (nat a) t"
  by (cases "nat a \<le> length t") (simp_all add: slice_from_def slice_bound_def min_def)

lemma slice_nonneg:
  "0 \<le> a \<Longrightarrow> a \<le> b \<Longrightarrow> slice t a b = take (nat b - nat a) (drop (nat a) t)"
  by (cases "nat a \<le> length t"; cases "nat b \<le> length t")
     (auto simp add: slice_def slice_bound_def min_def)

lemma map_append_Nil [simp]: "map ((@) []) xs = xs"
  by (induction xs) simp_all

lemma branches_record: "int si = int (length seq) - 1 \<Longrightarrow> branches seq si ci l = [[]]"
  by (auto simp: branches_def)

lemma derivs_drop:
  "Suc si < length seq \<Longrightarrow> derivs si (drop si seq) = branches seq si 0 (- 1)"
  by (simp add: branches_def Cons_nth_drop_Suc [symmetric])

lemma derivs_drop_last:
  "Suc si = length seq \<Longrightarrow> derivs si (drop si seq) = [[]]"
  by (simp add: Cons_nth_drop_Suc [symmetric])

lemma branches_start: "si < length seq \<Longrightarrow> branches seq si 0 (- 1) = derivs si (drop si seq)"
  by (cases "Suc si < length seq") (auto simp: derivs_drop derivs_drop_last branches_def)

lemma branches_advance:
  "Suc si < length seq \<Longrightarrow> ci = length (seq ! si) \<Longrightarrow>
     branches seq si ci l = branches seq (Suc si) 0 (- 1)"
  by (simp add: branches_start) (simp add: branches_def)

lemma branches_last:
  assumes "Suc si < length seq" "int ci = int (length (seq ! si)) - 1" "- 1 \<le> l"
  shows "branches seq si ci l =
     map ((#) ((si, ci), (seq ! si ! ci, slice_from (seq ! Suc si) (l + 1))))
       (branches seq si (Suc ci) (int (length (seq ! si)) - 1))"
proof -
  from assms have ci: "Suc ci = length (seq ! si)" by linarith
  then have d: "drop ci (seq ! si) = [seq ! si ! ci]"
    by (metis Cons_nth_drop_Suc drop_all lessI order_refl)
  have n: "length (seq ! si) - ci = Suc 0" using ci by simp
  have sl: "slice_from (seq ! Suc si) (l + 1) = drop (nat (l + 1)) (seq ! Suc si)"
    using assms(3) by (simp add: slice_from_nonneg)
  have adv: "branches seq si (Suc ci) (int (length (seq ! si)) - 1) = derivs (Suc si) (drop (Suc si) seq)"
    using assms(1) ci by (simp add: branches_def)
  show ?thesis
    unfolding adv sl
    using assms(1) by (simp add: branches_def d n)
qed

lemma upto_as_map:
  "- 1 \<le> l \<Longrightarrow> [l + 1 .. int n - 1 - 1] = map (\<lambda>m. l + int m) [1..<n - nat (l + 1)]"
  by (rule nth_equalityI) (auto simp: nth_upto)

lemma append_Cons_fun: "(@) (x # xs) = (\<lambda>ys. x # (xs @ ys))"
  by (rule ext) simp

lemma concat_map_concat:
  "concat (map f (concat xss)) = concat (map (\<lambda>xs. concat (map f xs)) xss)"
  by (induction xss) simp_all

lemma branches_middle:
  assumes "Suc si < length seq" "Suc ci < length (seq ! si)" "- 1 \<le> l"
  shows "branches seq si ci l =
     concat (map (\<lambda>r. map ((#) ((si, ci), (seq ! si ! ci, slice (seq ! Suc si) (l + 1) (r + 1))))
                         (branches seq si (Suc ci) r))
               [l + 1 .. int (length (seq ! Suc si)) - 1 - 1])"
proof -
  define s where "s = seq ! si"
  define t where "t = seq ! Suc si"
  define rem where "rem = drop (nat (l + 1)) t"
  define D where "D = derivs (Suc si) (drop (Suc si) seq)"
  define k where "k = length s - ci - 2"
  have len: "length s - ci = Suc (Suc k)" "length s - Suc ci = Suc k"
    using assms(2) by (simp_all add: k_def s_def)
  have d: "drop ci s = s ! ci # drop (Suc ci) s"
    using assms(2) by (simp add: Cons_nth_drop_Suc s_def)
  have lrem: "length rem = length t - nat (l + 1)" by (simp add: rem_def)
  have step: "map (\<lambda>ps. map ((@) (mkrow si ci (s ! ci # drop (Suc ci) s) (take m rem # ps))) D) pss
      = map (\<lambda>ps. map ((#) ((si, ci), (s ! ci, take m rem))) (map ((@) (mkrow si (Suc ci) (drop (Suc ci) s) ps)) D)) pss"
    for m pss by simp
  have br: "branches seq si (Suc ci) (l + int m) =
      concat (map (\<lambda>ps. map ((@) (mkrow si (Suc ci) (drop (Suc ci) s) ps)) D)
                (parts (Suc k) (drop m rem)))" for m
  proof -
    have "nat (l + int m + 1) = m + nat (l + 1)" using assms(3) by linarith
    then show ?thesis
      using assms(1) by (simp add: branches_def s_def t_def rem_def D_def len [unfolded s_def])
  qed
  have sl: "slice t (l + 1) (l + int m + 1) = take m rem" for m
  proof -
    have "nat (l + int m + 1) - nat (l + 1) = m" using assms(3) by linarith
    then show ?thesis using assms(3) by (simp add: slice_nonneg rem_def)
  qed
  have "branches seq si ci l =
      concat (map (\<lambda>ps. map ((@) (mkrow si ci (drop ci s) ps)) D) (parts (length s - ci) rem))"
    using assms(1) by (simp add: branches_def s_def t_def rem_def D_def)
  also have "\<dots> = concat (map (\<lambda>m. map ((#) ((si, ci), (s ! ci, take m rem)))
                                   (branches seq si (Suc ci) (l + int m))) [1..<length rem])"
    unfolding len d parts.simps concat_map_concat br
    by (simp add: map_concat comp_def append_Cons_fun)
  also have "\<dots> = concat (map (\<lambda>r. map ((#) ((si, ci), (s ! ci, slice t (l + 1) (r + 1))))
                         (branches seq si (Suc ci) r)) [l + 1 .. int (length t) - 1 - 1])"
    unfolding upto_as_map [OF assms(3)] lrem by (simp add: comp_def sl)
  finally show ?thesis by (simp add: s_def t_def)
qed

subsection \<open>Keys of the dictionary\<close>

lemma positions_from_nth:
  "Suc k < length strs \<Longrightarrow> ci < length (strs ! k) \<Longrightarrow>
     sum_list (map length (take k strs)) + ci < length (positions_from i strs) \<and>
     positions_from i strs ! (sum_list (map length (take k strs)) + ci) = (i + k, ci)"
proof (induction i strs arbitrary: k rule: positions_from.induct)
  case (1 i s t rest)
  show ?case
  proof (cases k)
    case 0
    with 1 show ?thesis by (simp add: nth_append)
  next
    case (Suc k')
    with 1 show ?thesis by (simp add: nth_append)
  qed
qed simp_all

lemma length_positions_from:
  "length (positions_from i strs) = sum_list (map length (butlast strs))"
  by (induction i strs rule: positions_from.induct) simp_all

lemma distinct_positions_from_aux:
  "p \<in> set (positions_from i strs) \<Longrightarrow> i \<le> fst p"
  by (induction i strs rule: positions_from.induct) auto

lemma distinct_positions_from: "distinct (positions_from i strs)"
proof (induction i strs rule: positions_from.induct)
  case (1 i s t rest)
  then show ?case
    by (auto simp: distinct_map inj_on_def dest: distinct_positions_from_aux)
qed simp_all

lemma offset_position:
  "Suc si < length seq \<Longrightarrow> ci < length (seq ! si) \<Longrightarrow>
     offset seq si ci < length (positions_from 0 seq) \<and>
     positions_from 0 seq ! offset seq si ci = (si, ci)"
  using positions_from_nth [of si seq ci 0] by (simp add: offset_def)

lemma offset_Suc: "offset seq si (Suc ci) = Suc (offset seq si ci)"
  by (simp add: offset_def)

lemma offset_advance:
  "si < length seq \<Longrightarrow> offset seq (Suc si) 0 = offset seq si (length (seq ! si))"
  by (simp add: offset_def take_Suc_conv_app_nth)

lemma offset_last:
  "Suc si = length seq \<Longrightarrow> length (positions_from 0 seq) \<le> offset seq si ci"
proof -
  assume "Suc si = length seq"
  then have "length seq - 1 = si" by simp
  then show ?thesis
    by (simp add: offset_def length_positions_from butlast_conv_take)
qed

lemma update_fresh: "k \<notin> fst ` set al \<Longrightarrow> AList.update k v al = al @ [(k, v)]"
  by (induction al) auto

lemma update_at:
  "distinct (map fst al) \<Longrightarrow> n < length al \<Longrightarrow>
     AList.update (fst (al ! n)) v al = al[n := (fst (al ! n), v)]"
proof (induction al arbitrary: n)
  case (Cons a al)
  then show ?case
    by (cases n) (auto simp: nth_Cons')
qed simp

lemma nth_notin_take: "distinct xs \<Longrightarrow> n < length xs \<Longrightarrow> xs ! n \<notin> set (take n xs)"
  by (auto simp: in_set_conv_nth nth_eq_iff_index_eq)

lemma keys_ok_update:
  fixes v :: production
  assumes "keys_ok seq cm" "n \<le> length cm" "n < length (positions_from 0 seq)"
  defines "cm1 \<equiv> AList.update (positions_from 0 seq ! n) v cm"
  shows "keys_ok seq cm1" "length cm \<le> length cm1" "Suc n \<le> length cm1"
    "take (Suc n) cm1 = take n cm @ [(positions_from 0 seq ! n, v)]"
proof -
  let ?ps = "positions_from 0 seq"
  have keys: "map fst cm = take (length cm) ?ps" using assms(1) by (simp add: keys_ok_def)
  have dist: "distinct (map fst cm)" unfolding keys by (simp add: distinct_positions_from)
  have "keys_ok seq cm1 \<and> length cm \<le> length cm1 \<and> Suc n \<le> length cm1 \<and>
    take (Suc n) cm1 = take n cm @ [(?ps ! n, v)]"
  proof (cases "n < length cm")
    case True
    then have "fst (cm ! n) = map fst cm ! n" by simp
    also have "\<dots> = ?ps ! n" unfolding keys using True by simp
    finally have "fst (cm ! n) = ?ps ! n" .
    then have "cm1 = cm[n := (?ps ! n, v)]"
      using update_at [OF dist True, of v] by (simp add: cm1_def)
    moreover have "map fst (cm[n := (?ps ! n, v)]) = map fst cm"
      using True \<open>fst (cm ! n) = ?ps ! n\<close>
      by (simp add: map_update list_update_same_conv)
    moreover have "take (Suc n) (cm[n := (?ps ! n, v)]) = take n cm @ [(?ps ! n, v)]"
      using True by (simp add: take_Suc_conv_app_nth)
    ultimately show ?thesis using True keys by (simp add: keys_ok_def)
  next
    case False
    with assms(2) have n: "n = length cm" by simp
    have "?ps ! n \<notin> set (take n ?ps)"
      using assms(3) distinct_positions_from [of 0 seq] by (rule_tac nth_notin_take)
    moreover have "fst ` set cm = set (take n ?ps)"
      using keys n by (simp flip: set_map)
    ultimately have "?ps ! n \<notin> fst ` set cm" by simp
    then have "cm1 = cm @ [(?ps ! n, v)]" by (simp add: cm1_def update_fresh)
    then show ?thesis using keys n assms(3) by (simp add: keys_ok_def take_Suc_conv_app_nth)
  qed
  then show "keys_ok seq cm1" "length cm \<le> length cm1" "Suc n \<le> length cm1"
    "take (Suc n) cm1 = take n cm @ [(positions_from 0 seq ! n, v)]" by simp_all
qed

subsection \<open>The search computes the pure enumeration\<close>

declare dfs_all_derivations.simps [simp del] dfs_for.simps(2) [simp del]

lemma dfs_record:
  "int si = int (length seq) - 1 \<Longrightarrow>
     dfs_all_derivations seq si ci l (cm, am) = Inr (cm, am @ [cm])"
  by (subst dfs_all_derivations.simps) simp

lemma dfs_advance:
  "Suc si < length seq \<Longrightarrow> ci = length (seq ! si) \<Longrightarrow>
     dfs_all_derivations seq si ci l (cm, am) = dfs_all_derivations seq (Suc si) 0 (- 1) (cm, am)"
  by (subst dfs_all_derivations.simps) simp

lemma dfs_last_char:
  "Suc si < length seq \<Longrightarrow> int ci = int (length (seq ! si)) - 1 \<Longrightarrow>
     dfs_all_derivations seq si ci l (cm, am) =
       dfs_all_derivations seq si (Suc ci) (int (length (seq ! si)) - 1)
         (AList.update (si, ci) (seq ! si ! ci, slice_from (seq ! Suc si) (l + 1)) cm, am)"
  by (subst dfs_all_derivations.simps) (auto simp: Let_def)

lemma dfs_middle:
  "Suc si < length seq \<Longrightarrow> Suc ci < length (seq ! si) \<Longrightarrow>
     dfs_all_derivations seq si ci l (cm, am) =
       dfs_for seq si ci l [l + 1 .. int (length (seq ! Suc si)) - 1 - 1] (cm, am)"
  by (subst dfs_all_derivations.simps) (auto simp: Let_def)

lemma dfs_for_Cons:
  "ci < length (seq ! si) \<Longrightarrow>
     dfs_for seq si ci l (r # rest) (cm, am) =
       (case dfs_all_derivations seq si (Suc ci) r
               (AList.update (si, ci) (seq ! si ! ci, slice (seq ! Suc si) (l + 1) (r + 1)) cm, am) of
          Inl e \<Rightarrow> Inl e
        | Inr st' \<Rightarrow> dfs_for seq si ci l rest st')"
  by (subst dfs_for.simps) (simp add: Let_def)

lemma append_snoc_fun: "(@) (xs @ [y]) = (\<lambda>zs. xs @ y # zs)"
  by (rule ext) simp

lemma keys_ok_length: "keys_ok seq cm \<Longrightarrow> length cm \<le> length (positions_from 0 seq)"
proof -
  assume "keys_ok seq cm"
  then have "length (map fst cm) = length (take (length cm) (positions_from 0 seq))"
    by (simp add: keys_ok_def)
  then show ?thesis by simp
qed

lemma dfs_post_step:
  assumes "dfs_post seq (Suc n) cm1 am outs res"
    and "take (Suc n) cm1 = take n cm @ [kv]" and "length cm \<le> length cm1" and "n \<le> length cm"
  shows "dfs_post seq n cm am outs res"
proof -
  from assms(1) obtain cm' where cm': "res = Inr (cm', am @ outs)" "keys_ok seq cm'"
    "length cm1 \<le> length cm'" "take (Suc n) cm' = take (Suc n) cm1"
    by (auto simp: dfs_post_def)
  have "take n cm' = take n (take (Suc n) cm')" by simp
  also have "\<dots> = take n (take n cm @ [kv])" by (simp only: cm'(4) assms(2))
  also have "\<dots> = take n cm" using assms(4) by simp
  finally have "take n cm' = take n cm" .
  with cm' assms(3) show ?thesis by (auto simp: dfs_post_def)
qed

lemma dfs_search:
  fixes st :: "derivation \<times> derivation list"
  shows
  "si < length seq \<Longrightarrow> (Suc si < length seq \<longrightarrow> ci \<le> length (seq ! si)) \<Longrightarrow> - 1 \<le> l \<Longrightarrow>
     keys_ok seq (fst st) \<Longrightarrow> offset seq si ci \<le> length (fst st) \<Longrightarrow>
     dfs_post seq (offset seq si ci) (fst st) (snd st)
       (map ((@) (take (offset seq si ci) (fst st))) (branches seq si ci l))
       (dfs_all_derivations seq si ci l st)"
  and
  "Suc si < length seq \<Longrightarrow> Suc ci < length (seq ! si) \<Longrightarrow> - 1 \<le> l \<Longrightarrow> \<forall>r\<in>set rs. l < r \<Longrightarrow>
     keys_ok seq (fst st) \<Longrightarrow> offset seq si ci \<le> length (fst st) \<Longrightarrow>
     dfs_post seq (offset seq si ci) (fst st) (snd st)
       (concat (map (\<lambda>r. map ((@) (take (offset seq si ci) (fst st) @
                  [((si, ci), (seq ! si ! ci, slice (seq ! Suc si) (l + 1) (r + 1)))]))
                (branches seq si (Suc ci) r)) rs))
       (dfs_for seq si ci l rs st)"
proof (induction seq si ci l st and seq si ci l rs st rule: dfs_all_derivations_dfs_for.induct)
  case (1 seq si ci l cm am)
  let ?n = "offset seq si ci"
  from "1.prems" have ok: "keys_ok seq cm" and n: "?n \<le> length cm" by simp_all
  show ?case
  proof (cases "int si = int (length seq) - 1")
    case True
    then have "Suc si = length seq" by linarith
    then have "length (positions_from 0 seq) \<le> ?n" by (rule offset_last)
    with keys_ok_length [OF ok] have "take ?n cm = cm" by simp
    then show ?thesis using True ok by (simp add: dfs_post_def branches_record dfs_record)
  next
    case rec: False
    with "1.prems"(1) have si: "Suc si < length seq" by linarith
    then have ci: "ci \<le> length (seq ! si)" using "1.prems"(2) by simp
    from si have nsi: "\<not> length seq \<le> si" by simp
    show ?thesis
    proof (cases "ci = length (seq ! si)")
      case True
      have "dfs_post seq (offset seq (si + 1) 0) (fst (cm, am)) (snd (cm, am))
              (map ((@) (take (offset seq (si + 1) 0) (fst (cm, am)))) (branches seq (si + 1) 0 (- 1)))
              (dfs_all_derivations seq (si + 1) 0 (- 1) (cm, am))"
        using si n ok True by (intro "1.IH"(1) [OF rec nsi True]) (simp_all add: offset_advance)
      then show ?thesis using si True
        by (simp add: offset_advance branches_advance dfs_advance)
    next
      case adv: False
      with ci have ci': "ci < length (seq ! si)" by simp
      note pos = offset_position [OF si ci']
      show ?thesis
      proof (cases "int ci = int (length (seq ! si)) - 1")
        case True
        define v where "v = (seq ! si ! ci, slice_from (seq ! (si + 1)) (l + 1))"
        define cm1 where "cm1 = AList.update (si, ci) v cm"
        have upd: "keys_ok seq cm1" "length cm \<le> length cm1" "Suc ?n \<le> length cm1"
          "take (Suc ?n) cm1 = take ?n cm @ [((si, ci), v)]"
          using keys_ok_update [OF ok n conjunct1 [OF pos], of v] pos by (simp_all add: cm1_def)
        have "dfs_post seq (offset seq si (ci + 1)) (fst (cm1, am)) (snd (cm1, am))
              (map ((@) (take (offset seq si (ci + 1)) (fst (cm1, am))))
                 (branches seq si (ci + 1) (int (length (seq ! si)) - 1)))
              (dfs_all_derivations seq si (ci + 1) (int (length (seq ! si)) - 1) (cm1, am))"
          unfolding cm1_def v_def
          using si ci' upd(1,3)
          by (intro "1.IH"(2) [OF rec nsi adv refl refl True]) (simp_all add: offset_Suc cm1_def v_def)
        moreover have "map ((@) (take ?n cm)) (branches seq si ci l) =
            map ((@) (take ?n cm @ [((si, ci), v)]))
              (branches seq si (Suc ci) (int (length (seq ! si)) - 1))"
          by (simp add: branches_last [OF si True "1.prems"(3)] v_def comp_def)
        moreover have "dfs_all_derivations seq si ci l (cm, am) =
            dfs_all_derivations seq si (Suc ci) (int (length (seq ! si)) - 1) (cm1, am)"
          by (simp add: dfs_last_char [OF si True] cm1_def v_def)
        ultimately have "dfs_post seq (Suc ?n) cm1 am
              (map ((@) (take ?n cm)) (branches seq si ci l))
              (dfs_all_derivations seq si ci l (cm, am))"
          by (simp add: offset_Suc upd(4))
        then show ?thesis using upd(4) upd(2) n by (simp add: dfs_post_step)
      next
        case mid: False
        with ci' have ci2: "Suc ci < length (seq ! si)" by linarith
        have "dfs_post seq ?n (fst (cm, am)) (snd (cm, am))
            (concat (map (\<lambda>r. map ((@) (take ?n (fst (cm, am)) @
                  [((si, ci), (seq ! si ! ci, slice (seq ! Suc si) (l + 1) (r + 1)))]))
                (branches seq si (Suc ci) r)) [l + 1 .. int (length (seq ! (si + 1))) - 1 - 1]))
            (dfs_for seq si ci l [l + 1 .. int (length (seq ! (si + 1))) - 1 - 1] (cm, am))"
          using si ci2 "1.prems"(3) ok n
          by (intro "1.IH"(3) [OF rec nsi adv refl refl mid]) simp_all
        then show ?thesis
          by (simp add: branches_middle [OF si ci2 "1.prems"(3)] dfs_middle [OF si ci2]
              map_concat comp_def append_snoc_fun)
      qed
    qed
  qed
next
  case (2 seq si ci l st)
  then show ?case by (cases st) (simp add: dfs_post_def)
next
  case (3 seq si ci l r rest cm am)
  let ?n = "offset seq si ci"
  from "3.prems" have si: "Suc si < length seq" and ci2: "Suc ci < length (seq ! si)"
    and l: "- 1 \<le> l" and r: "l < r" and rest: "\<forall>r\<in>set rest. l < r"
    and ok: "keys_ok seq cm" and n: "?n \<le> length cm" by simp_all
  from ci2 have ci': "ci < length (seq ! si)" and nci: "\<not> length (seq ! si) \<le> ci" by simp_all
  note pos = offset_position [OF si ci']
  define v where "v = (seq ! si ! ci, slice (seq ! (si + 1)) (l + 1) (r + 1))"
  define cm1 where "cm1 = AList.update (si, ci) v cm"
  define outs1 where "outs1 = map ((@) (take ?n cm @ [((si, ci), v)])) (branches seq si (Suc ci) r)"
  have upd: "keys_ok seq cm1" "length cm \<le> length cm1" "Suc ?n \<le> length cm1"
    "take (Suc ?n) cm1 = take ?n cm @ [((si, ci), v)]"
    using keys_ok_update [OF ok n conjunct1 [OF pos], of v] pos by (simp_all add: cm1_def)
  have "dfs_post seq (offset seq si (ci + 1)) (fst (cm1, am)) (snd (cm1, am))
          (map ((@) (take (offset seq si (ci + 1)) (fst (cm1, am)))) (branches seq si (ci + 1) r))
          (dfs_all_derivations seq si (ci + 1) r (cm1, am))"
    unfolding cm1_def v_def
    using si ci2 l r upd(1,3)
    by (intro "3.IH"(1) [OF refl refl nci]) (simp_all add: offset_Suc cm1_def v_def)
  then have "dfs_post seq (Suc ?n) cm1 am outs1 (dfs_all_derivations seq si (ci + 1) r (cm1, am))"
    by (simp add: offset_Suc upd(4) outs1_def)
  then have "dfs_post seq ?n cm am outs1 (dfs_all_derivations seq si (ci + 1) r (cm1, am))"
    using upd(4) upd(2) n by (rule dfs_post_step)
  then obtain cm2 where cm2: "dfs_all_derivations seq si (ci + 1) r (cm1, am) = Inr (cm2, am @ outs1)"
    "keys_ok seq cm2" "length cm \<le> length cm2" "take ?n cm2 = take ?n cm"
    by (auto simp: dfs_post_def)
  have "dfs_post seq ?n (fst (cm2, am @ outs1)) (snd (cm2, am @ outs1))
       (concat (map (\<lambda>r. map ((@) (take ?n (fst (cm2, am @ outs1)) @
                  [((si, ci), (seq ! si ! ci, slice (seq ! Suc si) (l + 1) (r + 1)))]))
                (branches seq si (Suc ci) r)) rest))
       (dfs_for seq si ci l rest (cm2, am @ outs1))"
    using si ci2 l rest cm2(2) cm2(3) n
    by (intro "3.IH"(2) [OF refl refl nci cm2(1) [unfolded cm1_def v_def]]) simp_all
  then obtain cm3 where cm3:
    "dfs_for seq si ci l rest (cm2, am @ outs1) =
       Inr (cm3, (am @ outs1) @ concat (map (\<lambda>r. map ((@) (take ?n cm2 @
                  [((si, ci), (seq ! si ! ci, slice (seq ! Suc si) (l + 1) (r + 1)))]))
                (branches seq si (Suc ci) r)) rest))"
    "keys_ok seq cm3" "length cm2 \<le> length cm3" "take ?n cm3 = take ?n cm2"
    by (auto simp: dfs_post_def)
  have res: "dfs_for seq si ci l (r # rest) (cm, am) = dfs_for seq si ci l rest (cm2, am @ outs1)"
    using cm2(1) by (simp add: dfs_for_Cons [OF ci'] cm1_def v_def)
  have outs: "concat (map (\<lambda>r. map ((@) (take ?n cm @
                  [((si, ci), (seq ! si ! ci, slice (seq ! Suc si) (l + 1) (r + 1)))]))
                (branches seq si (Suc ci) r)) (r # rest)) =
      outs1 @ concat (map (\<lambda>r. map ((@) (take ?n cm2 @
                  [((si, ci), (seq ! si ! ci, slice (seq ! Suc si) (l + 1) (r + 1)))]))
                (branches seq si (Suc ci) r)) rest)"
    by (simp add: outs1_def v_def cm2(4))
  show ?case
    unfolding dfs_post_def fst_conv snd_conv res outs
    using cm3 cm2 by (intro exI [of _ cm3]) simp
qed

lemma dfs_pure: "seq \<noteq> [] \<Longrightarrow> get_derivations seq = Inr (derivs 0 seq)"
proof -
  assume "seq \<noteq> []"
  then have len: "0 < length seq" by simp
  define st :: "derivation \<times> derivation list" where "st = ([], [])"
  have "dfs_post seq (offset seq 0 0) (fst st) (snd st)
          (map ((@) (take (offset seq 0 0) (fst st))) (branches seq 0 0 (- 1)))
          (dfs_all_derivations seq 0 0 (- 1) st)"
    using len by (intro dfs_search(1)) (simp_all add: keys_ok_def offset_def st_def)
  then show ?thesis
    using len by (auto simp: dfs_post_def get_derivations_def branches_start st_def)
qed

subsection \<open>Cuts, rows and derivations\<close>

lemma parts_length: "ps \<in> set (parts n rem) \<Longrightarrow> length ps = n"
  by (induction n rem arbitrary: ps rule: parts.induct) auto

lemma parts_concat: "ps \<in> set (parts n rem) \<Longrightarrow> 0 < n \<Longrightarrow> concat ps = rem"
  by (induction n rem arbitrary: ps rule: parts.induct) auto

lemma parts_complete:
  "length ps = n \<Longrightarrow> 0 < n \<Longrightarrow> concat ps = rem \<Longrightarrow> \<forall>p\<in>set ps. p \<noteq> [] \<Longrightarrow> ps \<in> set (parts n rem)"
proof (induction n rem arbitrary: ps rule: parts.induct)
  case (1 rem)
  then show ?case by simp
next
  case (2 rem)
  then show ?case by (cases ps) auto
next
  case (3 n rem)
  from "3.prems"(1) obtain p ps' where ps: "ps = p # ps'" and len': "length ps' = Suc n"
    by (cases ps) auto
  from len' obtain q qs where ps': "ps' = q # qs" by (cases ps') auto
  from "3.prems"(4) ps ps' have p: "p \<noteq> []" and q: "q \<noteq> []" by simp_all
  from "3.prems"(3) ps have rem: "rem = p @ concat ps'" by simp
  have "1 \<le> length p \<and> length p < length rem"
    using p q unfolding rem ps' by (cases p; cases q) simp_all
  then have m: "length p \<in> set [1..<length rem]" by simp
  have nonempty: "\<forall>p\<in>set ps'. p \<noteq> []" using "3.prems"(4) ps by simp
  have dr: "drop (length p) rem = concat ps'" "take (length p) rem = p" unfolding rem by simp_all
  have "ps' \<in> set (parts (Suc n) (drop (length p) rem))"
    using m len' _ _ nonempty
  proof (rule "3.IH")
    show "0 < Suc n" by simp
    show "concat ps' = drop (length p) rem" by (simp only: dr)
  qed
  then have "ps \<in> set (map ((#) (take (length p) rem)) (parts (Suc n) (drop (length p) rem)))"
    unfolding ps dr by simp
  then have "\<exists>m\<in>set [1..<length rem]. ps \<in> set (map ((#) (take m rem)) (parts (Suc n) (drop m rem)))"
    using m by (rule_tac bexI)
  then show ?case by (simp del: upt_Suc)
qed

lemma distinct_concat_map:
  "distinct xs \<Longrightarrow> (\<And>x. x \<in> set xs \<Longrightarrow> distinct (f x)) \<Longrightarrow>
     (\<And>x y. x \<in> set xs \<Longrightarrow> y \<in> set xs \<Longrightarrow> x \<noteq> y \<Longrightarrow> set (f x) \<inter> set (f y) = {}) \<Longrightarrow>
     distinct (concat (map f xs))"
proof (induction xs)
  case (Cons a xs)
  have "distinct (concat (map f xs))" using Cons.prems by (intro Cons.IH) auto
  moreover have "distinct (f a)" using Cons.prems(2) by simp
  moreover have "set (f a) \<inter> set (f x) = {}" if "x \<in> set xs" for x
    using Cons.prems(1) that by (intro Cons.prems(3)) auto
  ultimately show ?case by auto
qed simp

lemma distinct_parts: "distinct (parts n rem)"
proof (induction n rem rule: parts.induct)
  case (3 n rem)
  show ?case
    unfolding parts.simps
  proof (rule distinct_concat_map)
    show "distinct [1..<length rem]" by simp
  next
    fix m assume "m \<in> set [1..<length rem]"
    then show "distinct (map ((#) (take m rem)) (parts (Suc n) (drop m rem)))"
      using "3.IH" by (simp add: distinct_map)
  next
    fix m m' assume "m \<in> set [1..<length rem]" "m' \<in> set [1..<length rem]" "m \<noteq> m'"
    then have "length (take m rem) \<noteq> length (take m' rem)" by simp
    then have "take m rem \<noteq> take m' rem" by (rule contrapos_nn) (erule arg_cong)
    then show "set (map ((#) (take m rem)) (parts (Suc n) (drop m rem))) \<inter>
               set (map ((#) (take m' rem)) (parts (Suc n) (drop m' rem))) = {}"
      by auto
  qed
qed simp_all

lemma mkrow_keys:
  "length ps = length cs \<Longrightarrow> map fst (mkrow i j cs ps) = map (Pair i) [j..<j + length cs]"
proof (induction i j cs ps rule: mkrow.induct)
  case (1 i j c cs p ps)
  then show ?case by (simp del: upt_Suc add: upt_conv_Cons)
qed simp_all

lemma mkrow_values: "length ps = length cs \<Longrightarrow> map snd (mkrow i j cs ps) = zip cs ps"
  by (induction i j cs ps rule: mkrow.induct) simp_all

lemma length_mkrow: "length ps = length cs \<Longrightarrow> length (mkrow i j cs ps) = length cs"
  by (induction i j cs ps rule: mkrow.induct) simp_all

lemma mkrow_inject:
  assumes "length ps = length cs" "length ps' = length cs" "mkrow i j cs ps = mkrow i j cs ps'"
  shows "ps = ps'"
proof -
  have "map snd (mkrow i j cs ps) = map snd (mkrow i j cs ps')" using assms(3) by simp
  then have "zip cs ps = zip cs ps'" using assms(1,2) by (simp add: mkrow_values)
  then have "map snd (zip cs ps) = map snd (zip cs ps')" by simp
  then show ?thesis using assms(1,2) by simp
qed

lemma map_of_mkrow_other: "i' \<noteq> i \<Longrightarrow> map_of (mkrow i j cs ps) (i', j') = None"
  by (induction i j cs ps rule: mkrow.induct) simp_all

lemma map_of_mkrow_below: "j' < j \<Longrightarrow> map_of (mkrow i j cs ps) (i', j') = None"
  by (induction i j cs ps rule: mkrow.induct) simp_all

lemma map_of_mkrow:
  "length ps = length cs \<Longrightarrow> j \<le> j' \<Longrightarrow> j' < j + length cs \<Longrightarrow>
     map_of (mkrow i j cs ps) (i, j') = Some (cs ! (j' - j), ps ! (j' - j))"
proof (induction i j cs ps rule: mkrow.induct)
  case (1 i j c cs p ps)
  show ?case
  proof (cases "j' = j")
    case True
    then show ?thesis by simp
  next
    case False
    with 1 show ?thesis by (simp add: Suc_diff_le nth_Cons')
  qed
qed simp_all

lemma map_of_mkrow_above:
  "length ps = length cs \<Longrightarrow> j + length cs \<le> j' \<Longrightarrow> map_of (mkrow i j cs ps) (i', j') = None"
  by (induction i j cs ps rule: mkrow.induct) simp_all

lemma derivs_elim:
  assumes "d \<in> set (derivs i (s # t # rest))"
  obtains ps d' where "d = mkrow i 0 s ps @ d'" "ps \<in> set (parts (length s) t)"
    "d' \<in> set (derivs (Suc i) (t # rest))"
  using assms by auto

lemma derivs_keys: "d \<in> set (derivs i strs) \<Longrightarrow> map fst d = positions_from i strs"
proof (induction i strs arbitrary: d rule: derivs.induct)
  case (1 i s t rest)
  from "1.prems" obtain ps d' where d: "d = mkrow i 0 s ps @ d'"
    and ps: "ps \<in> set (parts (length s) t)" and d': "d' \<in> set (derivs (Suc i) (t # rest))"
    by (rule derivs_elim)
  have "map fst d' = positions_from (Suc i) (t # rest)" using ps d' by (rule "1.IH")
  then show ?case using parts_length [OF ps] by (simp add: d mkrow_keys)
qed simp_all

lemma derivs_chars:
  "d \<in> set (derivs i strs) \<Longrightarrow> map (\<lambda>e. fst (snd e)) d = concat (butlast strs)"
proof (induction i strs arbitrary: d rule: derivs.induct)
  case (1 i s t rest)
  from "1.prems" obtain ps d' where d: "d = mkrow i 0 s ps @ d'"
    and ps: "ps \<in> set (parts (length s) t)" and d': "d' \<in> set (derivs (Suc i) (t # rest))"
    by (rule derivs_elim)
  have "map (\<lambda>e. fst (snd e)) d' = concat (butlast (t # rest))" using ps d' by (rule "1.IH")
  moreover have "map (\<lambda>e. fst (snd e)) (mkrow i 0 s ps) = map fst (map snd (mkrow i 0 s ps))"
    by (simp add: comp_def)
  then have "map (\<lambda>e. fst (snd e)) (mkrow i 0 s ps) = s"
    using parts_length [OF ps] by (simp only: mkrow_values) simp
  ultimately show ?case by (simp add: d)
qed simp_all

lemma distinct_derivs: "distinct (derivs i strs)"
proof (induction i strs rule: derivs.induct)
  case (1 i s t rest)
  show ?case
    unfolding derivs.simps
  proof (rule distinct_concat_map)
    show "distinct (parts (length s) t)" by (rule distinct_parts)
  next
    fix ps assume "ps \<in> set (parts (length s) t)"
    then show "distinct (map ((@) (mkrow i 0 s ps)) (derivs (Suc i) (t # rest)))"
      using "1.IH" by (simp add: distinct_map inj_on_def)
  next
    fix ps ps' assume ps: "ps \<in> set (parts (length s) t)" and ps': "ps' \<in> set (parts (length s) t)"
      and ne: "ps \<noteq> ps'"
    have "mkrow i 0 s ps \<noteq> mkrow i 0 s ps'"
      using mkrow_inject [OF parts_length [OF ps] parts_length [OF ps']] ne by blast
    moreover have "length (mkrow i 0 s ps) = length (mkrow i 0 s ps')"
      using parts_length [OF ps] parts_length [OF ps'] by (simp add: length_mkrow)
    ultimately show "set (map ((@) (mkrow i 0 s ps)) (derivs (Suc i) (t # rest))) \<inter>
          set (map ((@) (mkrow i 0 s ps')) (derivs (Suc i) (t # rest))) = {}"
      by auto
  qed
qed simp_all

lemma those_map_Some: "those (map Some xs) = Some xs"
  by (induction xs) simp_all

lemma derivs_lookup_head:
  assumes "length ps = length s" "j < length s"
  shows "map_of (mkrow i 0 s ps @ d') (i, j) = Some (s ! j, ps ! j)"
  using map_of_mkrow [of ps s 0 j i] assms by (simp add: map_add_def)

lemma derivs_lookup_tail:
  assumes "i' \<noteq> i"
  shows "map_of (mkrow i 0 s ps @ d') (i', j) = map_of d' (i', j)"
  using map_of_mkrow_other [OF assms, of 0 s ps j] by (simp add: map_add_def)

lemma derivs_sound:
  "d \<in> set (derivs i strs) \<Longrightarrow> Suc k < length strs \<Longrightarrow> strs ! k \<noteq> [] \<Longrightarrow>
     map_option concat (assigned d (i + k) (length (strs ! k))) = Some (strs ! Suc k)"
proof (induction i strs arbitrary: d k rule: derivs.induct)
  case (1 i s t rest)
  from "1.prems"(1) obtain ps d' where d: "d = mkrow i 0 s ps @ d'"
    and ps: "ps \<in> set (parts (length s) t)" and d': "d' \<in> set (derivs (Suc i) (t # rest))"
    by (rule derivs_elim)
  note len = parts_length [OF ps]
  show ?case
  proof (cases k)
    case 0
    with "1.prems"(3) have s: "0 < length s" by simp
    have "map (\<lambda>j. map_option snd (map_of d (i, j))) [0..<length s] = map (\<lambda>j. Some (ps ! j)) [0..<length s]"
      using len by (intro map_cong refl) (simp del: map_of_append add: d derivs_lookup_head)
    also have "\<dots> = map Some (map ((!) ps) [0..<length ps])" using len by simp
    also have "\<dots> = map Some ps" by (simp only: map_nth)
    finally have "assigned d i (length s) = Some ps" by (simp add: assigned_def those_map_Some)
    then show ?thesis using 0 parts_concat [OF ps s] by simp
  next
    case (Suc k')
    have "assigned d (i + k) n = assigned d' (Suc i + k') n" for n
      by (simp del: map_of_append add: assigned_def d Suc derivs_lookup_tail)
    moreover have "map_option concat (assigned d' (Suc i + k') (length ((t # rest) ! k'))) =
        Some ((t # rest) ! Suc k')"
      using ps d' "1.prems"(2,3) Suc by (intro "1.IH") simp_all
    ultimately show ?thesis by (simp add: Suc)
  qed
qed simp_all

section \<open>The enumerator: partition and completeness\<close>

lemma get_derivations_AB_ABAB:
  "get_derivations [''AB'', ''ABAB''] =
     Inr [[((0, 0), CHR ''A'', ''A''), ((0, 1), CHR ''B'', ''BAB'')],
          [((0, 0), CHR ''A'', ''AB''), ((0, 1), CHR ''B'', ''AB'')],
          [((0, 0), CHR ''A'', ''ABA''), ((0, 1), CHR ''B'', ''B'')]]"
  by code_simp

text \<open>
  C1, as the code has it. For every derivation \<open>d\<close> that \<open>get_derivations\<close> returns on \<open>seq\<close> and
  every \<open>i\<close> with a successor string, provided \<open>seq[i]\<close> is not the empty string, every position of
  \<open>seq[i]\<close> has an entry in \<open>d\<close> and the substrings of these entries, concatenated in position
  order, are \<open>seq[i+1]\<close> exactly.
\<close>

theorem partition_invariant:
  "get_derivations seq = Inr ds \<Longrightarrow> d \<in> set ds \<Longrightarrow> Suc i < length seq \<Longrightarrow> seq ! i \<noteq> [] \<Longrightarrow>
     map_option concat (assigned d i (length (seq ! i))) = Some (seq ! Suc i)"
proof -
  assume g: "get_derivations seq = Inr ds" and d: "d \<in> set ds" and i: "Suc i < length seq"
    and ne: "seq ! i \<noteq> []"
  from i have "seq \<noteq> []" by auto
  with g have "ds = derivs 0 seq" by (simp add: dfs_pure)
  with d have "d \<in> set (derivs 0 seq)" by simp
  from derivs_sound [OF this i ne] show ?thesis by simp
qed

theorem partition_invariant_witness:
  "[((0, 0), CHR ''A'', ''AB''), ((0, 1), CHR ''B'', ''AB'')] \<in>
     set [[((0, 0), CHR ''A'', ''A''), ((0, 1), CHR ''B'', ''BAB'')],
          [((0, 0), CHR ''A'', ''AB''), ((0, 1), CHR ''B'', ''AB'')],
          [((0, 0), CHR ''A'', ''ABA''), ((0, 1), CHR ''B'', ''B'')]] \<and>
   Suc 0 < length [''AB'', ''ABAB''] \<and> [''AB'', ''ABAB''] ! 0 \<noteq> [] \<and>
   map_option concat
     (assigned [((0, 0), CHR ''A'', ''AB''), ((0, 1), CHR ''B'', ''AB'')] 0 (length ''AB'')) =
   Some ''ABAB''"
  using partition_invariant [OF get_derivations_AB_ABAB,
      of "[((0, 0), CHR ''A'', ''AB''), ((0, 1), CHR ''B'', ''AB'')]" 0]
  by simp

text \<open>
  C1 as stated fails on \<^verbatim>\<open>['', 'A']\<close>, a sequence of two strings: the search steps over the
  empty first string without looking at its successor and records the empty mapping, whose
  substrings for string 0 concatenate to the empty string, not to \<^verbatim>\<open>'A'\<close>.
\<close>

theorem partition_invariant_counterexample:
  "get_derivations ['''', ''A''] = Inr [[]] \<and>
   map_option concat (assigned [] 0 (length '''')) \<noteq> Some ''A''"
  by (simp add: get_derivations_def dfs_all_derivations.simps assigned_def)

subsection \<open>Every valid mapping is enumerated once\<close>

lemma set_positions_from:
  "set (positions_from i strs) = {(i + k, j) | k j. Suc k < length strs \<and> j < length (strs ! k)}"
proof (induction i strs rule: positions_from.induct)
  case (1 i s t rest)
  have "{(i + k, j) | k j. Suc k < length (s # t # rest) \<and> j < length ((s # t # rest) ! k)} =
      {(i, j) | j. j < length s} \<union>
      {(Suc i + k, j) | k j. Suc k < length (t # rest) \<and> j < length ((t # rest) ! k)}"
    (is "?A = ?B \<union> ?C")
  proof (rule set_eqI, rule iffI)
    fix p assume "p \<in> ?A"
    then obtain k j where p: "p = (i + k, j)" and k: "Suc k < length (s # t # rest)"
      and j: "j < length ((s # t # rest) ! k)" by blast
    show "p \<in> ?B \<union> ?C"
    proof (cases k)
      case 0
      with p j show ?thesis by simp
    next
      case (Suc k')
      with p k j have "p = (Suc i + k', j) \<and> Suc k' < length (t # rest) \<and> j < length ((t # rest) ! k')"
        by simp
      then show ?thesis by blast
    qed
  next
    fix p assume "p \<in> ?B \<union> ?C"
    then consider (B) "p \<in> ?B" | (C) "p \<in> ?C" by blast
    then show "p \<in> ?A"
    proof cases
      case B
      then obtain j where "p = (i + 0, j)" "Suc 0 < length (s # t # rest)"
        "j < length ((s # t # rest) ! 0)" by auto
      then show ?thesis by blast
    next
      case C
      then obtain k j where "p = (i + Suc k, j)" "Suc (Suc k) < length (s # t # rest)"
        "j < length ((s # t # rest) ! Suc k)" by auto
      then show ?thesis by blast
    qed
  qed
  moreover have "set (map (Pair i) [0..<length s]) = {(i, j) | j. j < length s}" by auto
  ultimately show ?case using "1.IH" by simp
qed simp_all

lemma valid_mapping_from: "valid_mapping seq m \<Longrightarrow> valid_from 0 seq m"
  by (simp add: valid_mapping_def valid_from_def set_positions_from)

lemma positions_from_fst: "p \<in> set (positions_from (Suc i) strs) \<Longrightarrow> fst p \<noteq> i"
  using distinct_positions_from_aux [of p "Suc i" strs] by auto

lemma derivs_complete:
  "valid_from i strs m \<Longrightarrow> \<exists>d\<in>set (derivs i strs). map_of d = m"
proof (induction i strs arbitrary: m rule: derivs.induct)
  case (1 i s t rest)
  let ?strs = "s # t # rest"
  from "1.prems" have dom: "dom m = set (positions_from i ?strs)"
    by (simp add: valid_from_def)
  from "1.prems" obtain ws where ws: "length ws = length s" "concat ws = t"
    and wsj: "\<forall>j<length s. ws ! j \<noteq> [] \<and> m (i, j) = Some (s ! j, ws ! j)"
    unfolding valid_from_def by (auto dest: spec [of _ 0])
  have in_parts: "ws \<in> set (parts (length s) t)"
  proof (cases "s = []")
    case True
    with ws show ?thesis by simp
  next
    case False
    have "\<forall>p\<in>set ws. p \<noteq> []" using wsj ws(1) by (auto simp: in_set_conv_nth)
    with ws False show ?thesis by (intro parts_complete) simp_all
  qed
  define m' where "m' = m |` {p. fst p \<noteq> i}"
  have "valid_from (Suc i) (t # rest) m'"
    unfolding valid_from_def
  proof (intro conjI allI impI)
    have "dom m' = set (positions_from i ?strs) \<inter> {p. fst p \<noteq> i}"
      by (simp add: m'_def dom)
    also have "\<dots> = set (positions_from (Suc i) (t # rest))"
      by (auto dest: positions_from_fst)
    finally show "dom m' = set (positions_from (Suc i) (t # rest))" .
  next
    fix k assume k: "Suc k < length (t # rest)"
    then have "Suc (Suc k) < length ?strs" by simp
    with "1.prems" obtain vs where "length vs = length (?strs ! Suc k)"
      "concat vs = ?strs ! Suc (Suc k)"
      "\<forall>j<length (?strs ! Suc k). vs ! j \<noteq> [] \<and> m (i + Suc k, j) = Some (?strs ! Suc k ! j, vs ! j)"
      unfolding valid_from_def by blast
    then show "\<exists>ws. length ws = length ((t # rest) ! k) \<and> concat ws = (t # rest) ! Suc k \<and>
        (\<forall>j<length ((t # rest) ! k). ws ! j \<noteq> [] \<and>
           m' (Suc i + k, j) = Some ((t # rest) ! k ! j, ws ! j))"
      by (intro exI [of _ vs]) (simp add: m'_def)
  qed
  with in_parts obtain d' where d': "d' \<in> set (derivs (Suc i) (t # rest))" "map_of d' = m'"
    using "1.IH" by blast
  let ?d = "mkrow i 0 s ws @ d'"
  have "map_of ?d = m"
  proof (rule ext)
    fix p :: position
    obtain a b where p: "p = (a, b)" by (cases p)
    show "map_of ?d p = m p"
    proof (cases "a = i")
      case False
      have "map_of ?d (a, b) = map_of d' (a, b)" by (rule derivs_lookup_tail [OF False])
      also have "\<dots> = m (a, b)" using False by (simp add: d'(2) m'_def)
      finally show ?thesis unfolding p .
    next
      case True
      show ?thesis
      proof (cases "b < length s")
        case b: True
        have "map_of ?d (i, b) = Some (s ! b, ws ! b)" by (rule derivs_lookup_head [OF ws(1) b])
        also have "\<dots> = m (i, b)" using wsj b by simp
        finally show ?thesis unfolding p True .
      next
        case b: False
        have "(i, b) \<notin> set (positions_from i ?strs)"
          using b by (auto dest: positions_from_fst)
        then have "m (i, b) = None" using dom by blast
        moreover have "map_of (mkrow i 0 s ws) (i, b) = None"
          using b ws(1) by (intro map_of_mkrow_above) simp_all
        moreover have "map_of d' (i, b) = None" by (simp add: d'(2) m'_def)
        ultimately show ?thesis unfolding p True by (simp add: map_add_def)
      qed
    qed
  qed
  moreover have "?d \<in> set (derivs i ?strs)" using in_parts d'(1) by auto
  ultimately show ?case by blast
qed (simp_all add: valid_from_def)

lemma alist_eqI:
  "distinct (map fst xs) \<Longrightarrow> map fst xs = map fst ys \<Longrightarrow> map_of xs = map_of ys \<Longrightarrow> xs = ys"
proof (induction xs arbitrary: ys)
  case Nil
  then show ?case by simp
next
  case (Cons x xs)
  from Cons.prems(2) obtain y ys' where ys: "ys = y # ys'" by (cases ys) auto
  with Cons.prems(2) have k: "fst y = fst x" and ks: "map fst xs = map fst ys'" by simp_all
  from fun_cong [OF Cons.prems(3), of "fst x"]
  have "map_of (x # xs) (fst x) = map_of ys (fst x)" .
  then have v: "snd x = snd y" using ys k by (cases x; cases y) simp
  have "map_of xs = map_of ys'"
  proof (rule ext)
    fix a
    show "map_of xs a = map_of ys' a"
    proof (cases "a = fst x")
      case True
      with Cons.prems(1) have "a \<notin> fst ` set xs" by simp
      moreover from this ks have "a \<notin> fst ` set ys'" by (metis set_map)
      ultimately have "map_of xs a = None" "map_of ys' a = None"
        by (simp_all only: map_of_eq_None_iff not_False_eq_True)
      then show ?thesis by simp
    next
      case False
      from fun_cong [OF Cons.prems(3), of a]
      have "map_of (x # xs) a = map_of (y # ys') a" by (simp add: ys)
      with False k show ?thesis by (cases x; cases y) simp
    qed
  qed
  with Cons.IH [of ys'] Cons.prems(1) ks have "xs = ys'" by simp
  with k v ys show ?case by (cases x; cases y) simp
qed

lemma filter_unique:
  "distinct xs \<Longrightarrow> x \<in> set xs \<Longrightarrow> (\<And>y. y \<in> set xs \<Longrightarrow> P y \<longleftrightarrow> y = x) \<Longrightarrow> filter P xs = [x]"
proof (induction xs)
  case (Cons a xs)
  show ?case
  proof (cases "a = x")
    case True
    with Cons.prems have "filter P xs = []" by (auto simp: filter_empty_conv)
    with True Cons.prems(3) [of a] show ?thesis by simp
  next
    case False
    with Cons have "filter P xs = [x]" by simp
    with False Cons.prems(3) [of a] show ?thesis by simp
  qed
qed simp

text \<open>
  C2. On a sequence of at least two strings \<open>get_derivations\<close> returns a list without duplicates
  in which every valid mapping occurs, as a dictionary, exactly once.
\<close>

theorem enumeration_complete:
  "2 \<le> length seq \<Longrightarrow> valid_mapping seq m \<Longrightarrow>
     \<exists>ds. get_derivations seq = Inr ds \<and> distinct ds \<and>
          length (filter (\<lambda>d. map_of d = m) ds) = 1"
proof -
  assume len: "2 \<le> length seq" and valid: "valid_mapping seq m"
  from len have "seq \<noteq> []" by auto
  then have g: "get_derivations seq = Inr (derivs 0 seq)" by (rule dfs_pure)
  from valid have "valid_from 0 seq m" by (rule valid_mapping_from)
  then obtain d where d: "d \<in> set (derivs 0 seq)" "map_of d = m"
    using derivs_complete by blast
  have "filter (\<lambda>d. map_of d = m) (derivs 0 seq) = [d]"
  proof (rule filter_unique [OF distinct_derivs d(1)])
    fix y assume y: "y \<in> set (derivs 0 seq)"
    show "map_of y = m \<longleftrightarrow> y = d"
    proof
      assume "map_of y = m"
      with d(2) have maps: "map_of y = map_of d" by simp
      have keys: "map fst y = map fst d" using y d(1) by (simp add: derivs_keys)
      have "distinct (map fst y)"
        using y by (simp add: derivs_keys distinct_positions_from)
      then show "y = d" using keys maps by (rule alist_eqI)
    next
      assume "y = d"
      with d(2) show "map_of y = m" by simp
    qed
  qed
  with g show ?thesis by (simp add: distinct_derivs)
qed

lemma valid_mapping_example:
  "valid_mapping [''AB'', ''ABAB'']
     (map_of [((0, 0), (CHR ''A'', ''AB'')), ((0, 1), (CHR ''B'', ''AB''))])"
proof -
  let ?seq = "[''AB'', ''ABAB'']"
  let ?m = "map_of [((0 :: nat, 0 :: nat), (CHR ''A'', ''AB'')), ((0, 1), (CHR ''B'', ''AB''))]"
  have dom: "dom ?m = {(0, 0), (0, 1)}"
    by (simp add: dom_map_of_conv_image_fst)
  have keys: "{(i, j). Suc i < length ?seq \<and> j < length (?seq ! i)} = {(0, 0), (0, 1 :: nat)}"
  proof (rule set_eqI)
    fix p :: "nat \<times> nat"
    obtain i j where p: "p = (i, j)" by (cases p)
    show "p \<in> {(i, j). Suc i < length ?seq \<and> j < length (?seq ! i)} \<longleftrightarrow> p \<in> {(0, 0), (0, 1)}"
    proof (cases "i = 0")
      case True
      have "j < Suc (Suc 0) \<longleftrightarrow> j = 0 \<or> j = Suc 0" by arith
      with True show ?thesis unfolding p by simp
    next
      case False
      then show ?thesis unfolding p by simp
    qed
  qed
  have pieces: "\<exists>ws. length ws = length (?seq ! i) \<and> concat ws = ?seq ! Suc i \<and>
      (\<forall>j<length (?seq ! i). ws ! j \<noteq> [] \<and> ?m (i, j) = Some (?seq ! i ! j, ws ! j))"
    if "Suc i < length ?seq" for i
  proof -
    from that have i: "i = 0" by simp
    have "\<forall>j<length ''AB''. [''AB'', ''AB''] ! j \<noteq> [] \<and> ?m (0, j) = Some (''AB'' ! j, [''AB'', ''AB''] ! j)"
      by (simp add: less_Suc_eq)
    then show ?thesis unfolding i by (intro exI [of _ "[''AB'', ''AB'']"]) simp
  qed
  show ?thesis
    unfolding valid_mapping_def keys dom using pieces by blast
qed


theorem enumeration_complete_witness:
  "2 \<le> length [''AB'', ''ABAB''] \<and>
   valid_mapping [''AB'', ''ABAB'']
     (map_of [((0, 0), (CHR ''A'', ''AB'')), ((0, 1), (CHR ''B'', ''AB''))]) \<and>
   (\<exists>ds. get_derivations [''AB'', ''ABAB''] = Inr ds \<and> distinct ds \<and>
      length (filter (\<lambda>d. map_of d =
          map_of [((0, 0), (CHR ''A'', ''AB'')), ((0, 1), (CHR ''B'', ''AB''))]) ds) = 1)"
proof -
  have len: "2 \<le> length [''AB'', ''ABAB'']" by simp
  from enumeration_complete [OF len valid_mapping_example] len valid_mapping_example
  show ?thesis by (intro conjI)
qed

section \<open>The selector: best derivation, distribution and final probability\<close>

subsection \<open>Tallies and products\<close>

lemma tally_lookup:
  "map_of (fold count_up xs d) k =
     (if k \<in> set xs then Some (dict_get d k 0 + int (count_list xs k)) else map_of d k)"
proof (induction xs arbitrary: d k)
  case Nil
  then show ?case by simp
next
  case (Cons x xs)
  have up: "map_of (count_up x d) = (map_of d)(x \<mapsto> dict_get d x 0 + 1)"
    by (simp add: count_up_def update_conv')
  have get: "dict_get (count_up x d) k' 0 = (if k' = x then dict_get d x 0 + 1 else dict_get d k' 0)"
    for k' by (simp add: dict_get_def up)
  show ?case
    by (cases "k = x") (simp_all add: Cons.IH up get)
qed

lemma tally_distinct: "distinct (map fst d) \<Longrightarrow> distinct (map fst (fold count_up xs d))"
  by (induction xs arbitrary: d) (simp_all add: count_up_def distinct_update)

lemma tally_keys: "fst ` set (fold count_up xs d) = set xs \<union> fst ` set d"
proof -
  have "dom (map_of (fold count_up xs d)) = set xs \<union> dom (map_of d)"
    by (auto simp: tally_lookup dom_def)
  then show ?thesis by (simp add: dom_map_of_conv_image_fst)
qed

lemma tally_value:
  "(k, a) \<in> set (fold count_up xs []) \<Longrightarrow> a = int (count_list xs k) \<and> k \<in> set xs"
proof -
  assume "(k, a) \<in> set (fold count_up xs [])"
  moreover have "distinct (map fst (fold count_up xs ([] :: ('a \<times> int) list)))"
    by (rule tally_distinct) simp
  ultimately have "map_of (fold count_up xs []) k = Some a" by simp
  then show ?thesis by (simp add: tally_lookup dict_get_def split: if_splits)
qed

lemma fold_times_alist:
  fixes g :: "'k \<Rightarrow> 'v \<Rightarrow> int"
  shows "distinct (map fst al) \<Longrightarrow>
    fold (\<lambda>(k, a) f. f * g k a) al z = z * (\<Prod>k\<in>fst ` set al. g k (the (map_of al k)))"
proof (induction al arbitrary: z)
  case Nil
  then show ?case by simp
next
  case (Cons x al)
  obtain k a where x: "x = (k, a)" by (cases x)
  from Cons.prems x have k: "k \<notin> fst ` set al" and d: "distinct (map fst al)" by simp_all
  have "(\<Prod>k'\<in>fst ` set al. g k' (the (map_of (x # al) k'))) =
        (\<Prod>k'\<in>fst ` set al. g k' (the (map_of al k')))"
    using k by (intro prod.cong refl) (auto simp: x)
  then show ?case using k by (simp add: Cons.IH [OF d] x mult.assoc)
qed

lemma get_prod_count_tally: "get_prod_count d = fold count_up (map snd d) []"
  by (simp add: get_prod_count_def fold_map comp_def split_def)

lemma non_constant_factor_concentration: "non_constant_factor d = concentration d"
proof -
  let ?ps = "map snd d"
  let ?al = "fold count_up ?ps []"
  have dist: "distinct (map fst ?al)" by (rule tally_distinct) simp
  have keys: "fst ` set ?al = set ?ps" by (simp add: tally_keys)
  have "non_constant_factor d = fold (\<lambda>(k, a) f. f * self_power a) ?al 1"
    by (simp add: non_constant_factor_def get_prod_count_tally)
  also have "\<dots> = (\<Prod>k\<in>fst ` set ?al. self_power (the (map_of ?al k)))"
    using fold_times_alist [OF dist, of "\<lambda>k a. self_power a" 1] by simp
  also have "\<dots> = (\<Prod>p\<in>set ?ps. int (count_list ?ps p) ^ count_list ?ps p)"
    unfolding keys by (intro prod.cong refl) (simp add: tally_lookup dict_get_def self_power_def)
  finally show ?thesis by (simp add: concentration_def)
qed

lemma seq_char_count_tally:
  "fold (\<lambda>s d. fold count_up s d) ss d = fold count_up (concat ss) d"
  by (induction ss arbitrary: d) simp_all

lemma count_list_pos: "x \<in> set xs \<Longrightarrow> 0 < count_list xs x"
  using count_list_0_iff [of xs x] by simp

lemma char_product_pos: "0 < char_product seq"
  unfolding char_product_def by (intro prod_pos) (simp add: count_list_pos)

lemma char_product_fold:
  "fold (\<lambda>(c, count_c) f. f * self_power count_c) (fold count_up (concat (butlast seq)) []) 1 =
     char_product seq"
proof -
  let ?cs = "concat (butlast seq)"
  let ?al = "fold count_up ?cs []"
  have dist: "distinct (map fst ?al)" by (rule tally_distinct) simp
  have keys: "fst ` set ?al = set ?cs" by (simp add: tally_keys)
  have "fold (\<lambda>(c, count_c) f. f * self_power count_c) ?al 1 =
        (\<Prod>k\<in>fst ` set ?al. self_power (the (map_of ?al k)))"
    using fold_times_alist [OF dist, of "\<lambda>k a. self_power a" 1] by simp
  also have "\<dots> = char_product seq"
    unfolding keys char_product_def
    by (intro prod.cong refl) (simp add: tally_lookup dict_get_def self_power_def)
  finally show ?thesis .
qed

text \<open>
  The true division of a positive integer by one that is not smaller returns: the quotient is
  at most 1, far from the overflow.
\<close>

lemma true_div_pos:
  assumes "0 < a" "a \<le> b"
  shows "true_div a b = Inr (Finite (nearest_multiple (of_int a / of_int b)))"
proof -
  let ?x = "of_int a / of_int b :: rat"
  from assms have b: "0 < b" by simp
  have x: "0 < ?x" using assms(1) b by simp
  have "?x \<le> 1" using assms b by simp
  also have "(1::rat) < 2 powi 1023" by simp
  finally have "round_magnitude ?x = Some (nearest_multiple ?x)"
    by (rule round_magnitude_Some [OF x])
  moreover have "\<bar>?x\<bar> = ?x" using x by (simp only: abs_of_pos)
  ultimately have "round_magnitude \<bar>?x\<bar> = Some (nearest_multiple ?x)" by simp
  then show ?thesis
    unfolding true_div_def using assms(1) b by (simp add: signed_zero_def)
qed

lemma constant_factor_eq:
  "constant_factor seq =
     Inr (Finite (nearest_multiple (1 / of_int (char_product seq))),
          fold count_up (concat (butlast seq)) [])"
proof -
  have "1 \<le> char_product seq" using char_product_pos [of seq] by simp
  from true_div_pos [OF _ this] show ?thesis
    by (simp add: constant_factor_def seq_char_count_tally char_product_fold Let_def)
qed

subsection \<open>Maximum, first index and the result of the selector\<close>

lemma fold_max_ge: "(z :: int) \<le> fold max xs z \<and> (\<forall>x\<in>set xs. x \<le> fold max xs z)"
proof (induction xs arbitrary: z)
  case Nil
  then show ?case by simp
next
  case (Cons x xs)
  from Cons.IH [of "max x z"] show ?case by auto
qed

lemma fold_max_mem: "fold max xs (z :: int) \<in> insert z (set xs)"
proof (induction xs arbitrary: z)
  case Nil
  then show ?case by simp
next
  case (Cons x xs)
  from Cons.IH [of "max x z"] show ?case by (auto simp: max_def split: if_splits)
qed

lemma py_max_Inr:
  "py_max xs = Inr m \<Longrightarrow> m \<in> set xs \<and> (\<forall>x\<in>set xs. x \<le> m)"
proof (cases xs)
  case Nil
  assume "py_max xs = Inr m"
  with Nil show ?thesis by (simp add: py_max_def)
next
  case (Cons a ys)
  assume "py_max xs = Inr m"
  with Cons have m: "m = fold max ys a" by (simp add: py_max_def)
  from fold_max_mem [of ys a] fold_max_ge [of a ys] show ?thesis
    unfolding m Cons by auto
qed

lemma py_index_Inr:
  "py_index xs v = Inr k \<Longrightarrow> k < length xs \<and> xs ! k = v \<and> (\<forall>j<k. xs ! j \<noteq> v)"
proof (induction xs arbitrary: k)
  case Nil
  then show ?case by simp
next
  case (Cons x xs)
  show ?case
  proof (cases "x = v")
    case True
    with Cons.prems show ?thesis by simp
  next
    case False
    with Cons.prems obtain k' where k': "py_index xs v = Inr k'" "k = Suc k'"
      by (auto split: sum.splits)
    from Cons.IH [OF k'(1)] False k'(2) show ?thesis by (auto simp: nth_Cons')
  qed
qed

lemma overall_elim:
  assumes "overall_dervs_maxprob seq = Inr (distribution, best, p)"
  obtains ds m k cf scc mf where "get_derivations seq = Inr ds"
    "py_max (map non_constant_factor ds) = Inr m"
    "py_index (map non_constant_factor ds) m = Inr k"
    "best = ds ! k" "constant_factor seq = Inr (cf, scc)"
    "distribution_loop scc (get_prod_count best) [] = Inr distribution"
    "int_to_double m = Inr mf" "p = double_mul mf cf"
proof -
  have opt: "optimal_scaled_probability_val seq = non_constant_factor"
    by (rule ext) (simp add: optimal_scaled_probability_val_def)
  from assms show ?thesis
    unfolding overall_dervs_maxprob_def opt Let_def
    by (auto split: sum.splits prod.splits intro: that)
qed

lemma overall_AB_ABA:
  "overall_dervs_maxprob [''AB'', ''ABA''] =
     Inr ([((CHR ''A'', ''A''), 1), ((CHR ''B'', ''BA''), 1)],
          [((0, 0), CHR ''A'', ''A''), ((0, 1), CHR ''B'', ''BA'')], 1)"
  by code_simp

lemma overall_AB_AB_ABB:
  "overall_dervs_maxprob [''AB'', ''AB'', ''ABB''] =
     Inr ([((CHR ''A'', ''A''), Finite 1), ((CHR ''B'', ''B''), Finite (1 / 2)),
           ((CHR ''B'', ''BB''), Finite (1 / 2))],
          [((0, 0), CHR ''A'', ''A''), ((0, 1), CHR ''B'', ''B''),
           ((1, 0), CHR ''A'', ''A''), ((1, 1), CHR ''B'', ''BB'')],
          Finite (1 / 4))"
  by code_simp

text \<open>
  C3. Whenever \<open>overall_dervs_maxprob\<close> returns, the derivation it returns stands in the list of
  \<open>get_derivations\<close> at an index \<open>k\<close> whose concentration factor is the greatest of the list, and
  every derivation before \<open>k\<close> has a strictly smaller one: it is the first maximiser.
\<close>

theorem best_is_first_maximum:
  "overall_dervs_maxprob seq = Inr (distribution, best, p) \<Longrightarrow>
     \<exists>ds k. get_derivations seq = Inr ds \<and> k < length ds \<and> best = ds ! k \<and>
       (\<forall>j<length ds. concentration (ds ! j) \<le> concentration (ds ! k)) \<and>
       (\<forall>j<k. concentration (ds ! j) < concentration (ds ! k))"
proof -
  assume "overall_dervs_maxprob seq = Inr (distribution, best, p)"
  then obtain ds m k where ds: "get_derivations seq = Inr ds"
    and m: "py_max (map non_constant_factor ds) = Inr m"
    and k: "py_index (map non_constant_factor ds) m = Inr k"
    and best: "best = ds ! k"
    by (rule overall_elim)
  let ?scores = "map non_constant_factor ds"
  note idx = py_index_Inr [OF k]
  from idx have k1: "k < length ds" by simp
  from idx have k2: "?scores ! k = m" by (rule conjunct1 [OF conjunct2])
  from idx have k3: "\<forall>j<k. ?scores ! j \<noteq> m" by (rule conjunct2 [OF conjunct2])
  from py_max_Inr [OF m] have le: "\<forall>x\<in>set ?scores. x \<le> m" by simp
  have all: "concentration (ds ! j) \<le> concentration (ds ! k)" if "j < length ds" for j
  proof -
    from that have "?scores ! j \<in> set ?scores" by (intro nth_mem) simp
    with le have "?scores ! j \<le> m" by blast
    with that k1 k2 show ?thesis by (simp add: non_constant_factor_concentration)
  qed
  have first: "concentration (ds ! j) < concentration (ds ! k)" if "j < k" for j
  proof -
    from that k1 have j: "j < length ds" by simp
    from k3 that have "?scores ! j \<noteq> m" by blast
    with all [OF j] j k1 k2 show ?thesis by (simp add: non_constant_factor_concentration)
  qed
  show ?thesis
    by (intro exI [of _ ds] exI [of _ k] conjI allI impI ds k1 best all first)
qed

theorem best_is_first_maximum_witness:
  "\<exists>ds k. get_derivations [''AB'', ''ABA''] = Inr ds \<and> k < length ds \<and>
       [((0, 0), CHR ''A'', ''A''), ((0, 1), CHR ''B'', ''BA'')] = ds ! k \<and>
       (\<forall>j<length ds. concentration (ds ! j) \<le> concentration (ds ! k)) \<and>
       (\<forall>j<k. concentration (ds ! j) < concentration (ds ! k))"
  using best_is_first_maximum [OF overall_AB_ABA] .

lemma overall_A6_B6:
  "overall_dervs_maxprob [''AAAAAA'', ''BBBBBB''] =
     Inr ([((CHR ''A'', ''B''), 1)],
          [((0, 0), CHR ''A'', ''B''), ((0, 1), CHR ''A'', ''B''), ((0, 2), CHR ''A'', ''B''),
           ((0, 3), CHR ''A'', ''B''), ((0, 4), CHR ''A'', ''B''), ((0, 5), CHR ''A'', ''B'')],
          Finite (9007199254740991 / 9007199254740992))"
  by code_simp

lemma concentration_A6_B6:
  "concentration [((0, 0), CHR ''A'', ''B''), ((0, 1), CHR ''A'', ''B''), ((0, 2), CHR ''A'', ''B''),
           ((0, 3), CHR ''A'', ''B''), ((0, 4), CHR ''A'', ''B''), ((0, 5), CHR ''A'', ''B'')] = 46656"
  unfolding non_constant_factor_concentration [symmetric] by code_simp

lemma char_product_A6_B6: "char_product [''AAAAAA'', ''BBBBBB''] = 46656"
  unfolding char_product_fold [symmetric] by code_simp

text \<open>
  C5 as stated fails. On \<^verbatim>\<open>['AAAAAA', 'BBBBBB']\<close> the only derivation uses the production
  \<^verbatim>\<open>('A', 'B')\<close> six times: the concentration factor is \<open>6 ^ 6\<close>, the product over the characters is
  \<open>6 ^ 6\<close> too, and their quotient is 1. The selector returns \<^verbatim>\<open>0.9999999999999999\<close>, the double
  below 1: it multiplies \<open>46656\<close> by the double nearest to \<open>1 / 46656\<close> and rounds again.
\<close>

theorem final_probability_rounded_counterexample:
  "overall_dervs_maxprob [''AAAAAA'', ''BBBBBB''] =
     Inr ([((CHR ''A'', ''B''), 1)],
          [((0, 0), CHR ''A'', ''B''), ((0, 1), CHR ''A'', ''B''), ((0, 2), CHR ''A'', ''B''),
           ((0, 3), CHR ''A'', ''B''), ((0, 4), CHR ''A'', ''B''), ((0, 5), CHR ''A'', ''B'')],
          Finite (9007199254740991 / 9007199254740992)) \<and>
   rat_of_int (concentration
          [((0, 0), CHR ''A'', ''B''), ((0, 1), CHR ''A'', ''B''), ((0, 2), CHR ''A'', ''B''),
           ((0, 3), CHR ''A'', ''B''), ((0, 4), CHR ''A'', ''B''), ((0, 5), CHR ''A'', ''B'')]) *
     (1 / rat_of_int (char_product [''AAAAAA'', ''BBBBBB''])) = 1"
  unfolding concentration_A6_B6 char_product_A6_B6 by (rule conjI) (rule overall_A6_B6, simp)

text \<open>
  C5, as the code has it. Whenever \<open>overall_dervs_maxprob\<close> returns, the final probability is a
  product of doubles: the concentration factor of the returned derivation converted to a
  double, times the double nearest to one over the product, over the characters of the
  non-final strings, of \<open>count ^ count\<close>; the product is rounded to the nearest double. Both
  conversions succeed on every sequence on which the selector returns.
\<close>

theorem final_probability_formula:
  "overall_dervs_maxprob seq = Inr (distribution, best, p) \<Longrightarrow>
     \<exists>m c. int_to_double (concentration best) = Inr m \<and>
           true_div 1 (char_product seq) = Inr c \<and> p = double_mul m c"
proof -
  assume "overall_dervs_maxprob seq = Inr (distribution, best, p)"
  then obtain ds m k cf scc mf where ds: "get_derivations seq = Inr ds"
    and m: "py_max (map non_constant_factor ds) = Inr m"
    and k: "py_index (map non_constant_factor ds) m = Inr k"
    and best: "best = ds ! k" and cf: "constant_factor seq = Inr (cf, scc)"
    and mf: "int_to_double m = Inr mf"
    and p: "p = double_mul mf cf"
    by (rule overall_elim)
  from py_index_Inr [OF k] best have "m = non_constant_factor best" by auto
  then have 1: "int_to_double (concentration best) = Inr mf"
    using mf by (simp add: non_constant_factor_concentration)
  have "1 \<le> char_product seq" using char_product_pos [of seq] by simp
  from true_div_pos [OF _ this] cf have 2: "true_div 1 (char_product seq) = Inr cf"
    by (simp add: constant_factor_eq)
  from 1 2 p show ?thesis by blast
qed

text \<open>The theorem at \<^verbatim>\<open>['AB', 'AB', 'ABB']\<close>, where the selector returns \<^verbatim>\<open>0.25\<close>.\<close>

theorem final_probability_formula_witness:
  "\<exists>m c. int_to_double (concentration [((0, 0), CHR ''A'', ''A''), ((0, 1), CHR ''B'', ''B''),
           ((1, 0), CHR ''A'', ''A''), ((1, 1), CHR ''B'', ''BB'')]) = Inr m \<and>
     true_div 1 (char_product [''AB'', ''AB'', ''ABB'']) = Inr c \<and>
     Finite (1 / 4) = double_mul m c"
  by (rule final_probability_formula [OF overall_AB_AB_ABB])

subsection \<open>The distribution\<close>

lemma update_fibre_sum:
  fixes d :: "(('a \<times> 'b) \<times> int) list"
  shows "sum_list (map snd (filter (\<lambda>e. fst (fst e) = c) (AList.update x v d))) =
     sum_list (map snd (filter (\<lambda>e. fst (fst e) = c) d)) +
       (if fst x = c then v - dict_get d x 0 else 0)"
  by (induction d) (auto simp: dict_get_def)

lemma tally_fibre_sum:
  fixes d :: "(('a \<times> 'b) \<times> int) list"
  shows "sum_list (map snd (filter (\<lambda>e. fst (fst e) = c) (fold count_up xs d))) =
     sum_list (map snd (filter (\<lambda>e. fst (fst e) = c) d)) + int (count_list (map fst xs) c)"
  by (induction xs arbitrary: d) (auto simp: count_up_def update_fibre_sum)

lemma distribution_loop_eq:
  assumes "distinct (map fst pc)" "fst ` set pc \<inter> fst ` set acc = {}"
    and "\<And>pr a. (pr, a) \<in> set pc \<Longrightarrow> \<exists>n. map_of scc (fst pr) = Some n \<and> 0 < a \<and> a \<le> n"
  shows "distribution_loop scc pc acc =
     Inr (acc @ map (\<lambda>e. (fst e, Finite (nearest_multiple
                              (of_int (snd e) / of_int (the (map_of scc (fst (fst e)))))))) pc)"
  using assms
proof (induction pc arbitrary: acc)
  case Nil
  then show ?case by simp
next
  case (Cons x pc)
  obtain pr a where x: "x = (pr, a)" by (cases x)
  from Cons.prems(3) [of pr a] x obtain n where n: "map_of scc (fst pr) = Some n" "0 < a" "a \<le> n"
    by auto
  let ?q = "Finite (nearest_multiple (of_int a / of_int n))"
  from Cons.prems(2) x have fresh: "pr \<notin> fst ` set acc" by auto
  have "distribution_loop scc pc (acc @ [(pr, ?q)]) =
      Inr ((acc @ [(pr, ?q)]) @ map (\<lambda>e. (fst e, Finite (nearest_multiple
                              (of_int (snd e) / of_int (the (map_of scc (fst (fst e)))))))) pc)"
  proof (rule Cons.IH)
    show "distinct (map fst pc)" using Cons.prems(1) by simp
    show "fst ` set pc \<inter> fst ` set (acc @ [(pr, ?q)]) = {}"
      using Cons.prems(1,2) x by auto
    show "\<exists>n. map_of scc (fst pr') = Some n \<and> 0 < a' \<and> a' \<le> n" if "(pr', a') \<in> set pc" for pr' a'
      using Cons.prems(3) [of pr' a'] that by simp
  qed
  then show ?case
    using n(1) fresh by (simp add: x dict_item_def true_div_pos [OF n(2,3)] update_fresh)
qed

lemma overall_distribution:
  assumes "overall_dervs_maxprob seq = Inr (distribution, best, p)"
  shows "map (\<lambda>e. fst (snd e)) best = concat (butlast seq)"
    and "distribution =
      map (\<lambda>e. (fst e, Finite (nearest_multiple
                   (of_int (snd e) / of_int (int (count_list (concat (butlast seq)) (fst (fst e))))))))
        (fold count_up (map snd best) [])"
proof -
  let ?cs = "concat (butlast seq)"
  let ?ps = "map snd best"
  from assms obtain ds m k cf scc where ds: "get_derivations seq = Inr ds"
    and k: "py_index (map non_constant_factor ds) m = Inr k"
    and best: "best = ds ! k" and cf: "constant_factor seq = Inr (cf, scc)"
    and loop: "distribution_loop scc (get_prod_count best) [] = Inr distribution"
    by (rule overall_elim)
  from ds have "seq \<noteq> []" by (auto simp: get_derivations_Nil)
  with ds have "ds = derivs 0 seq" by (simp add: dfs_pure)
  moreover from py_index_Inr [OF k] have "k < length ds" by simp
  ultimately have "best \<in> set (derivs 0 seq)" using best by simp
  then show chars: "map (\<lambda>e. fst (snd e)) best = ?cs" by (rule derivs_chars)
  then have chars': "map fst ?ps = ?cs" by (simp add: comp_def)
  from cf have scc: "scc = fold count_up ?cs []" by (simp add: constant_factor_eq)
  have look: "map_of scc (fst pr) = Some (int (count_list ?cs (fst pr))) \<and>
      0 < a \<and> a \<le> int (count_list ?cs (fst pr))"
    if "(pr, a) \<in> set (fold count_up ?ps [])" for pr a
  proof -
    from tally_value [OF that] have a: "a = int (count_list ?ps pr)" and pr: "pr \<in> set ?ps"
      by simp_all
    from pr have "fst pr \<in> set (map fst ?ps)" by (simp only: set_map image_eqI)
    then have mem: "fst pr \<in> set ?cs" by (simp only: chars')
    have "count_list ?ps pr \<le> count_list (map fst ?ps) (fst pr)" by (rule count_list_map_ge)
    then have le: "count_list ?ps pr \<le> count_list ?cs (fst pr)" by (simp only: chars')
    from mem have "map_of scc (fst pr) = Some (int (count_list ?cs (fst pr)))"
      by (simp add: scc tally_lookup dict_get_def)
    with le count_list_pos [OF pr] a show ?thesis by simp
  qed
  have "distribution_loop scc (fold count_up ?ps []) [] =
      Inr ([] @ map (\<lambda>e. (fst e, Finite (nearest_multiple
                              (of_int (snd e) / of_int (the (map_of scc (fst (fst e))))))))
                  (fold count_up ?ps []))"
  proof (rule distribution_loop_eq)
    show "distinct (map fst (fold count_up ?ps ([] :: (production \<times> int) list)))"
      by (rule tally_distinct) simp
    show "fst ` set (fold count_up ?ps []) \<inter> fst ` set ([] :: (production \<times> double) list) = {}"
      by simp
    show "\<exists>n. map_of scc (fst pr) = Some n \<and> 0 < a \<and> a \<le> n"
      if "(pr, a) \<in> set (fold count_up ?ps [])" for pr a
      using look [OF that] by blast
  qed
  with loop have "distribution =
      map (\<lambda>e. (fst e, Finite (nearest_multiple
             (of_int (snd e) / of_int (the (map_of scc (fst (fst e))))))))
        (fold count_up ?ps [])"
    by (simp add: get_prod_count_tally)
  also have "\<dots> = map (\<lambda>e. (fst e, Finite (nearest_multiple
                   (of_int (snd e) / of_int (int (count_list ?cs (fst (fst e))))))))
        (fold count_up ?ps [])"
  proof (rule map_cong [OF refl])
    fix e assume "e \<in> set (fold count_up ?ps [])"
    then have "(fst e, snd e) \<in> set (fold count_up ?ps [])" by simp
    from look [OF this] show "(fst e, Finite (nearest_multiple
             (of_int (snd e) / of_int (the (map_of scc (fst (fst e))))))) =
      (fst e, Finite (nearest_multiple
                   (of_int (snd e) / of_int (int (count_list ?cs (fst (fst e)))))))"
      by simp
  qed
  finally show "distribution =
      map (\<lambda>e. (fst e, Finite (nearest_multiple
                   (of_int (snd e) / of_int (int (count_list ?cs (fst (fst e))))))))
        (fold count_up ?ps [])" .
qed

lemma sum_list_error:
  fixes f g :: "'a \<Rightarrow> rat"
  assumes "\<And>e. e \<in> set ys \<Longrightarrow> \<bar>f e - g e\<bar> \<le> g e / K"
  shows "\<bar>sum_list (map f ys) - sum_list (map g ys)\<bar> \<le> sum_list (map g ys) / K"
  using assms
proof (induction ys)
  case Nil
  then show ?case by simp
next
  case (Cons y ys)
  have 1: "\<bar>f y - g y\<bar> \<le> g y / K" by (rule Cons.prems) simp
  have 2: "\<bar>sum_list (map f ys) - sum_list (map g ys)\<bar> \<le> sum_list (map g ys) / K"
    by (rule Cons.IH) (simp add: Cons.prems)
  have "\<bar>sum_list (map f (y # ys)) - sum_list (map g (y # ys))\<bar> =
      \<bar>(f y - g y) + (sum_list (map f ys) - sum_list (map g ys))\<bar>" by simp
  also have "\<dots> \<le> \<bar>f y - g y\<bar> + \<bar>sum_list (map f ys) - sum_list (map g ys)\<bar>"
    by (rule abs_triangle_ineq)
  also have "\<dots> \<le> g y / K + sum_list (map g ys) / K" using 1 2 by (rule add_mono)
  finally show ?case by (simp add: add_divide_distrib)
qed

lemma sum_list_divide:
  "sum_list (map (\<lambda>e. rat_of_int (f e) / n) ys) = rat_of_int (sum_list (map f ys)) / n"
  by (induction ys) (simp_all add: add_divide_distrib)

lemma overall_A6_ABCDEF:
  "overall_dervs_maxprob [''AAAAAA'', ''ABCDEF''] =
     Inr ([((CHR ''A'', ''A''), Finite (6004799503160661 / 36028797018963968)),
           ((CHR ''A'', ''B''), Finite (6004799503160661 / 36028797018963968)),
           ((CHR ''A'', ''C''), Finite (6004799503160661 / 36028797018963968)),
           ((CHR ''A'', ''D''), Finite (6004799503160661 / 36028797018963968)),
           ((CHR ''A'', ''E''), Finite (6004799503160661 / 36028797018963968)),
           ((CHR ''A'', ''F''), Finite (6004799503160661 / 36028797018963968))],
          [((0, 0), CHR ''A'', ''A''), ((0, 1), CHR ''A'', ''B''), ((0, 2), CHR ''A'', ''C''),
           ((0, 3), CHR ''A'', ''D''), ((0, 4), CHR ''A'', ''E''), ((0, 5), CHR ''A'', ''F'')],
          Finite (6326043921025223 / 295147905179352825856))"
  by code_simp

text \<open>
  C4 as stated fails. On \<^verbatim>\<open>['AAAAAA', 'ABCDEF']\<close> the only derivation uses six productions of \<open>A\<close>
  once each, and each of the six probabilities is \<^verbatim>\<open>1 / 6\<close>, the double
  \<^verbatim>\<open>0.16666666666666666\<close>, which is below a sixth: the six do not sum to 1 exactly.
\<close>

theorem symbol_probabilities_rounded_counterexample:
  "overall_dervs_maxprob [''AAAAAA'', ''ABCDEF''] =
     Inr ([((CHR ''A'', ''A''), Finite (6004799503160661 / 36028797018963968)),
           ((CHR ''A'', ''B''), Finite (6004799503160661 / 36028797018963968)),
           ((CHR ''A'', ''C''), Finite (6004799503160661 / 36028797018963968)),
           ((CHR ''A'', ''D''), Finite (6004799503160661 / 36028797018963968)),
           ((CHR ''A'', ''E''), Finite (6004799503160661 / 36028797018963968)),
           ((CHR ''A'', ''F''), Finite (6004799503160661 / 36028797018963968))],
          [((0, 0), CHR ''A'', ''A''), ((0, 1), CHR ''A'', ''B''), ((0, 2), CHR ''A'', ''C''),
           ((0, 3), CHR ''A'', ''D''), ((0, 4), CHR ''A'', ''E''), ((0, 5), CHR ''A'', ''F'')],
          Finite (6326043921025223 / 295147905179352825856)) \<and>
   probability_mass
         [((CHR ''A'', ''A''), Finite (6004799503160661 / 36028797018963968)),
           ((CHR ''A'', ''B''), Finite (6004799503160661 / 36028797018963968)),
           ((CHR ''A'', ''C''), Finite (6004799503160661 / 36028797018963968)),
           ((CHR ''A'', ''D''), Finite (6004799503160661 / 36028797018963968)),
           ((CHR ''A'', ''E''), Finite (6004799503160661 / 36028797018963968)),
           ((CHR ''A'', ''F''), Finite (6004799503160661 / 36028797018963968))] (CHR ''A'') =
     18014398509481983 / 18014398509481984"
  by (rule conjI) (rule overall_A6_ABCDEF, simp add: probability_mass_def value_of_def)

text \<open>
  C4, as the code has it. Whenever \<open>overall_dervs_maxprob\<close> returns a distribution, every entry
  of it is the true division of the count of its production in the returned derivation by the
  number of occurrences of its left symbol in the non-final strings, hence the double nearest
  to that quotient. For every symbol that is a left side the counts of its productions sum
  to the number of occurrences of the symbol, and the probabilities of its productions sum to
  1 up to the rounding of the entries: on a sequence of fewer than \<open>2 ^ 1022\<close> characters their
  exact sum is within \<open>2 ^ -53\<close> of 1.
\<close>

theorem symbol_probabilities_sum_to_one:
  assumes "overall_dervs_maxprob seq = Inr (distribution, best, p)"
    and "c \<in> fst ` fst ` set distribution"
    and "length (concat (butlast seq)) < 2 ^ 1022"
  shows "\<bar>probability_mass distribution c - 1\<bar> \<le> 1 / 2 ^ 53 \<and>
    sum_list (map (\<lambda>e. int (count_list (map snd best) (fst e)))
                (filter (\<lambda>e. fst (fst e) = c) distribution)) =
      int (count_list (concat (butlast seq)) c) \<and>
    (\<forall>pr q. (pr, q) \<in> set distribution \<longrightarrow>
       true_div (int (count_list (map snd best) pr))
                (int (count_list (concat (butlast seq)) (fst pr))) = Inr q)"
proof (intro conjI)
  let ?cs = "concat (butlast seq)"
  let ?ps = "map snd best"
  let ?pc = "fold count_up ?ps ([] :: (production \<times> int) list)"
  let ?N = "\<lambda>e :: production \<times> int. rat_of_int (int (count_list ?cs (fst (fst e))))"
  let ?h = "\<lambda>e :: production \<times> int. (fst e, Finite (nearest_multiple (of_int (snd e) / ?N e)))"
  let ?n = "rat_of_int (int (count_list ?cs c))"
  let ?fibre = "filter (\<lambda>e. fst (fst e) = c) ?pc"
  note chars = overall_distribution(1) [OF assms(1)]
  note dist = overall_distribution(2) [OF assms(1)]
  have chars': "map fst ?ps = ?cs" using chars by (simp add: comp_def)
  from assms(2) have "c \<in> fst ` fst ` set ?pc" unfolding dist by (auto simp: image_iff)
  then have "c \<in> fst ` set ?ps" by (simp add: tally_keys)
  then have "c \<in> set ?cs" using chars' by (metis set_map)
  then have pos: "0 < count_list ?cs c" by (rule count_list_pos)
  have npos: "0 < ?n" using pos by simp
  have "count_list ?cs c \<le> length ?cs" by (rule count_le_length)
  with assms(3) have "count_list ?cs c < 2 ^ 1022" by simp
  then have "?n < 2 ^ 1022"
    by (metis of_int_of_nat_eq of_nat_less_numeral_power_cancel_iff)
  then have small: "1 / 2 ^ 1022 < 1 / ?n" using npos by (simp add: field_simps)
  have fibre_sum: "sum_list (map snd ?fibre) = int (count_list ?cs c)"
    by (simp only: tally_fibre_sum chars') simp
  have fd: "filter (\<lambda>e. fst (fst e) = c) distribution = map ?h ?fibre"
    unfolding dist by (simp add: filter_map comp_def)
  then have "probability_mass distribution c =
      sum_list (map (\<lambda>e. nearest_multiple (of_int (snd e) / ?N e)) ?fibre)"
    by (simp add: probability_mass_def comp_def value_of_def)
  also have "\<dots> = sum_list (map (\<lambda>e. nearest_multiple (of_int (snd e) / ?n)) ?fibre)"
    by (rule arg_cong [where f = sum_list], rule map_cong [OF refl]) simp
  finally have mass: "probability_mass distribution c =
      sum_list (map (\<lambda>e. nearest_multiple (of_int (snd e) / ?n)) ?fibre)" .
  have exact: "sum_list (map (\<lambda>e. rat_of_int (snd e) / ?n) ?fibre) = 1"
    using npos by (simp add: sum_list_divide fibre_sum)
  have "\<bar>sum_list (map (\<lambda>e. nearest_multiple (of_int (snd e) / ?n)) ?fibre) -
         sum_list (map (\<lambda>e. rat_of_int (snd e) / ?n) ?fibre)\<bar> \<le>
        sum_list (map (\<lambda>e. rat_of_int (snd e) / ?n) ?fibre) / 2 ^ 53"
  proof (rule sum_list_error)
    fix e assume "e \<in> set ?fibre"
    then have "(fst e, snd e) \<in> set ?pc" by simp
    from tally_value [OF this] have "snd e = int (count_list ?ps (fst e))" "fst e \<in> set ?ps"
      by simp_all
    with count_list_pos [of "fst e" ?ps] have "1 \<le> snd e" by simp
    then have "(1::rat) \<le> of_int (snd e)" by simp
    then have "1 / ?n \<le> of_int (snd e) / ?n" using npos by (simp add: divide_right_mono)
    with small have "1 / 2 ^ 1022 \<le> rat_of_int (snd e) / ?n"
      by (rule less_imp_le [OF less_le_trans])
    moreover have "(2::rat) powi (- 1022) = 1 / 2 ^ 1022"
      by (simp only: power_int_minus power_int_numeral inverse_eq_divide)
    ultimately have "2 powi (- 1022) \<le> rat_of_int (snd e) / ?n" by (simp only:)
    then show "\<bar>nearest_multiple (of_int (snd e) / ?n) - of_int (snd e) / ?n\<bar> \<le>
        of_int (snd e) / ?n / 2 ^ 53"
      by (rule nearest_multiple_relative)
  qed
  then show "\<bar>probability_mass distribution c - 1\<bar> \<le> 1 / 2 ^ 53"
    by (simp only: mass exact)
  have "map (\<lambda>e. int (count_list ?ps (fst e))) (filter (\<lambda>e. fst (fst e) = c) distribution) =
      map (\<lambda>e. int (count_list ?ps (fst e))) ?fibre"
    by (simp add: fd comp_def)
  also have "\<dots> = map snd ?fibre"
  proof (rule map_cong [OF refl])
    fix e assume "e \<in> set ?fibre"
    then have "(fst e, snd e) \<in> set ?pc" by simp
    from tally_value [OF this] show "int (count_list ?ps (fst e)) = snd e" by simp
  qed
  finally show "sum_list (map (\<lambda>e. int (count_list ?ps (fst e)))
                (filter (\<lambda>e. fst (fst e) = c) distribution)) = int (count_list ?cs c)"
    by (simp only: fibre_sum)
  show "\<forall>pr q. (pr, q) \<in> set distribution \<longrightarrow>
       true_div (int (count_list ?ps pr)) (int (count_list ?cs (fst pr))) = Inr q"
  proof (intro allI impI)
    fix pr q assume "(pr, q) \<in> set distribution"
    then obtain e where e: "e \<in> set ?pc" "pr = fst e"
      "q = Finite (nearest_multiple (of_int (snd e) / ?N e))"
      unfolding dist by auto
    from e(1) have "(fst e, snd e) \<in> set ?pc" by simp
    from tally_value [OF this] have a: "snd e = int (count_list ?ps (fst e))" "fst e \<in> set ?ps"
      by simp_all
    have "count_list ?ps (fst e) \<le> count_list (map fst ?ps) (fst (fst e))"
      by (rule count_list_map_ge)
    then have le: "int (count_list ?ps pr) \<le> int (count_list ?cs (fst pr))"
      by (simp only: chars' e(2))
    have "0 < int (count_list ?ps pr)" using count_list_pos [OF a(2)] e(2) by simp
    from true_div_pos [OF this le] e a
    show "true_div (int (count_list ?ps pr)) (int (count_list ?cs (fst pr))) = Inr q" by simp
  qed
qed

text \<open>The theorem at \<^verbatim>\<open>['AB', 'AB', 'ABB']\<close> and the symbol \<open>B\<close>, whose two productions have \<^verbatim>\<open>0.5\<close> each.\<close>

theorem symbol_probabilities_sum_to_one_witness:
  "CHR ''B'' \<in> fst ` fst ` set [((CHR ''A'', ''A''), Finite 1), ((CHR ''B'', ''B''), Finite (1 / 2)),
      ((CHR ''B'', ''BB''), Finite (1 / 2))] \<and>
   length (concat (butlast [''AB'', ''AB'', ''ABB''])) < 2 ^ 1022 \<and>
   \<bar>probability_mass [((CHR ''A'', ''A''), Finite 1), ((CHR ''B'', ''B''), Finite (1 / 2)),
      ((CHR ''B'', ''BB''), Finite (1 / 2))] (CHR ''B'') - 1\<bar> \<le> 1 / 2 ^ 53"
proof -
  have mem: "CHR ''B'' \<in> fst ` fst ` set [((CHR ''A'', ''A''), Finite 1), ((CHR ''B'', ''B''), Finite (1 / 2)),
      ((CHR ''B'', ''BB''), Finite (1 / 2))]" by simp
  have len: "length (concat (butlast [''AB'', ''AB'', ''ABB''])) < 2 ^ 1022" by simp
  from symbol_probabilities_sum_to_one [OF overall_AB_AB_ABB mem len] mem len
  show ?thesis by blast
qed


section \<open>The joint optimiser: initial guess and restarts\<close>

subsection \<open>The multi-start wrapper on a one-production input\<close>

lemma single_pairs: "pairs_list_of [[((0, 0), (CHR ''A'', ''B''))]] = [(CHR ''A'', ''B'')]"
  by (simp add: pairs_list_of_def counter_def count_up_def)

lemma single_chars: "unique_chars_of [(CHR ''A'', ''B'')] = [CHR ''A'']"
  by (simp add: unique_chars_of_def)

lemma single_indices: "indices_for_char [(CHR ''A'', ''B'')] (CHR ''A'') = [0]"
  by (simp add: indices_for_char_def)

lemma tiny_value: "tiny = Finite (4951760157141521 / 4951760157141521099596496896)"
  by code_simp

lemma float_div_int_one: "float_div_int 1 1 = Inr 1"
  by code_simp

lemma round_magnitude_one: "round_magnitude 1 = Some 1"
  by code_simp

lemma double_div_self: "r \<noteq> 0 \<Longrightarrow> double_div (Finite r) (Finite r) = 1"
  by (simp add: double_div_def is_nan_def is_inf_def is_zero_def value_of_def round_ieee_def
      round_magnitude_one one_double_def)

text \<open>A finite double above the threshold is not zero, and dividing it by itself gives \<^verbatim>\<open>1.0\<close>.\<close>

lemma single_normalize:
  "g \<noteq> PosInf \<Longrightarrow> normalize_guess [(CHR ''A'', ''B'')] [CHR ''A''] [g] = Inr [1]"
proof (cases "double_less tiny g")
  case False
  then show ?thesis
    by (simp add: normalize_guess_def single_indices np_sum_def float_div_int_one)
next
  case True
  assume "g \<noteq> PosInf"
  with True obtain r where g: "g = Finite r" and r: "r \<noteq> 0"
    by (cases g) (auto simp: double_less_def tiny_value is_nan_def value_of_def)
  show ?thesis
    using True by (simp add: normalize_guess_def single_indices np_sum_def g double_div_self [OF r])
qed

lemma single_uniform: "uniform_guess [(CHR ''A'', ''B'')] [CHR ''A''] = Inr [1]"
  by (simp add: uniform_guess_def single_indices float_div_int_one)

text \<open>
  The random guess on the one-production input is \<open>[1.0]\<close> whatever is drawn: the single draw
  is its own sum, and it is divided by itself unless it is below the threshold.
\<close>

lemma single_random_guess:
  "random_guess random [(CHR ''A'', ''B'')] [CHR ''A''] [0] rng = Inr ([1], snd (random rng))"
proof -
  obtain k rng' where k: "random rng = (k, rng')" by (cases "random rng")
  have "\<exists>r. unit_double k = Finite r" unfolding unit_double_def by (rule exI) (rule refl)
  then obtain r where ud: "unit_double k = Finite r" ..
  show ?thesis
  proof (cases "double_less (Finite r) tiny")
    case True
    then show ?thesis
      by (simp add: single_indices np_sum_def float_div_int_one k ud Let_def)
  next
    case False
    have "r \<noteq> 0"
    proof
      assume "r = 0"
      then have "double_less (Finite r) tiny"
        by (simp add: double_less_def tiny_value is_nan_def value_of_def)
      with False show False ..
    qed
    then show ?thesis
      using False by (simp add: single_indices np_sum_def double_div_self k ud Let_def)
  qed
qed

lemma every_run_uniform:
  "solve_s0l minimize float_pow [[((0, 0), (CHR ''A'', ''B''))]] None =
     single_run minimize float_pow"
  by (simp add: solve_s0l_def optimize_from_def single_pairs single_chars single_uniform
      single_run_def del: map_map list.map) (simp add: Let_def)

lemma every_run_guess:
  "solve_s0l minimize float_pow [[((0, 0), (CHR ''A'', ''B''))]] (Some [1]) =
     single_run minimize float_pow"
proof -
  have "(1 :: double) \<noteq> PosInf" by (simp add: one_double_def)
  then show ?thesis
    by (simp add: solve_s0l_def optimize_from_def single_pairs single_chars single_normalize
      single_run_def del: map_map list.map) (simp add: Let_def)
qed

lemma double_less_irrefl: "\<not> double_less v v"
  by (cases v) (simp_all add: double_less_def is_nan_def)

lemma consider_run_twice: "consider_run run (consider_run run st) = consider_run run st"
  by (cases run; cases st)
    (auto simp: consider_run_def double_less_irrefl split: option.splits)

lemma every_restart_loop:
  assumes "single_run minimize float_pow = Inr run"
  shows "restart_loop minimize float_pow random [[((0, 0), (CHR ''A'', ''B''))]]
      [(CHR ''A'', ''B'')] [CHR ''A''] n (consider_run run st) rng =
   Inr (consider_run run st)"
proof (induction n arbitrary: rng)
  case 0
  then show ?case by simp
next
  case (Suc n)
  have rg: "random_guess random [(CHR ''A'', ''B'')] [CHR ''A'']
      (replicate (length [(CHR ''A'', ''B'')]) 0) rng = Inr ([1], snd (random rng))"
    using single_random_guess [of random rng] by simp
  show ?case
    unfolding restart_loop.simps rg
    by (simp only: sum.case prod.case every_run_guess assms consider_run_twice Suc.IH)
qed

text \<open>
  C9 does not hold of the code. On the one-production input below every run of \<open>solve_s0l\<close>,
  the uniform one (\<open>every_run_uniform\<close>) and each of the \<open>n\<close> restarts whatever the random draws
  (\<open>single_random_guess\<close>, \<open>every_run_guess\<close>), is the same call of the optimiser,
  \<open>single_run minimize float_pow\<close>: if the optimiser converges on this problem, all \<open>n + 1\<close>
  attempts converge. The wrapper then returns \<open>success_count = 1\<close>, for every \<open>n\<close> (and 0 when the
  converged objective is not above \<^verbatim>\<open>-inf\<close>): the count is incremented only by a run that
  strictly improves the best objective. An exception of the optimiser in the first run leaves
  the wrapper.
\<close>

theorem success_count_counts_improvements:
  "(case single_run minimize float_pow of
      Inl e \<Rightarrow>
        solve_with_restarts minimize float_pow random rng [[((0, 0), (CHR ''A'', ''B''))]] n = Inl e
    | Inr run \<Rightarrow>
        solve_with_restarts minimize float_pow random rng [[((0, 0), (CHR ''A'', ''B''))]] n =
          Inr (consider_run run (NegInf, None, None, 0)) \<and>
        snd (snd (snd (consider_run run (NegInf, None, None, 0)))) =
          (if fst run \<and> double_less NegInf (the (fst (snd run))) then 1 else 0))"
proof (cases "single_run minimize float_pow")
  case (Inl e)
  then show ?thesis
    by (simp add: solve_with_restarts_def every_run_uniform)
next
  case (Inr run)
  have 1: "solve_with_restarts minimize float_pow random rng [[((0, 0), (CHR ''A'', ''B''))]] n =
          Inr (consider_run run (NegInf, None, None, 0))"
    by (simp add: solve_with_restarts_def every_run_uniform Inr single_pairs single_chars
        every_restart_loop [OF Inr])
  from Inr have 2: "snd (snd (snd (consider_run run (NegInf, None, None, 0)))) =
          (if fst run \<and> double_less NegInf (the (fst (snd run))) then 1 else 0)"
    by (auto simp: single_run_def analyze_result_def consider_run_def
        split: sum.splits if_splits)
  from 1 2 show ?thesis by (simp add: Inr)
qed

text \<open>
  The theorem with an optimiser that converges at once and two restarts: three converged
  attempts, and a count of 1.
\<close>

theorem success_count_counts_improvements_witness:
  "solve_with_restarts immediate_minimize repeated_mul (\<lambda>g. (0, g)) ()
      [[((0, 0), (CHR ''A'', ''B''))]] 2 =
     Inr (Finite 1, Some [((CHR ''A'', ''B''), 1)], Some [(CHR ''A'', ''B'')], 1)"
proof -
  have run: "single_run immediate_minimize repeated_mul =
      Inr (True, Some (Finite 1), Some [((CHR ''A'', ''B''), 1)], [(CHR ''A'', ''B'')])"
    by code_simp
  have "consider_run (True, Some (Finite 1), Some [((CHR ''A'', ''B''), 1)], [(CHR ''A'', ''B'')])
      (NegInf, None, None, 0) =
     (Finite 1, Some [((CHR ''A'', ''B''), 1)], Some [(CHR ''A'', ''B'')], 1)"
    by code_simp
  with success_count_counts_improvements [of immediate_minimize repeated_mul "\<lambda>g. (0, g)" "()" 2]
  show ?thesis by (simp add: run)
qed

end
